theory Spec2Isabelle
  imports Main "HOL-Library.AList" "HOL-Library.Sublist"
begin

section \<open>JavaScript values\<close>

text \<open>
  The components take \<^verbatim>\<open>args: any\<close> and \<^verbatim>\<open>result?: any\<close>, and the chat request body is
  whatever \<^verbatim>\<open>JSON.parse\<close> returns, so the values of the language are modelled as data.
  Numbers are integers here: of a number the code below only asks whether it is truthy.
  An object is the list of its own properties in insertion order, one binding per key;
  a lookup reads the first binding.
\<close>

datatype js_value =
    Undefined
  | Null
  | Bool bool
  | Num int
  | Str string
  | Arr "js_value list"
  | Obj "(string \<times> js_value) list"

datatype js_error = TypeError | SyntaxError

text \<open>Truthiness, as \<^verbatim>\<open>||\<close> and the conditional operator test it.\<close>

fun truthy :: "js_value \<Rightarrow> bool" where
  "truthy Undefined = False"
| "truthy Null = False"
| "truthy (Bool b) = b"
| "truthy (Num n) = (n \<noteq> 0)"
| "truthy (Str s) = (s \<noteq> [])"
| "truthy (Arr _) = True"
| "truthy (Obj _) = True"

text \<open>
  \<^verbatim>\<open>v?.k\<close> for a property name \<open>k\<close> that no primitive, array or prototype carries
  (\<^verbatim>\<open>command\<close>, \<^verbatim>\<open>path\<close>, \<^verbatim>\<open>new_path\<close>, \<^verbatim>\<open>files\<close>, \<^verbatim>\<open>projectId\<close>): undefined on
  \<^verbatim>\<open>null\<close> and \<^verbatim>\<open>undefined\<close> by the optional chain, undefined on a primitive or an array,
  the property's value on an object that has it.
\<close>

fun opt_prop :: "js_value \<Rightarrow> string \<Rightarrow> js_value" where
  "opt_prop (Obj kvs) k = (case map_of kvs k of None \<Rightarrow> Undefined | Some v \<Rightarrow> v)"
| "opt_prop _ k = Undefined"

text \<open>\<^verbatim>\<open>s.split(sep)\<close> for a one-character separator: never empty, \<^verbatim>\<open>"".split("/")\<close> is \<^verbatim>\<open>[""]\<close>.\<close>

fun split_on :: "char \<Rightarrow> string \<Rightarrow> string list" where
  "split_on sep [] = [[]]"
| "split_on sep (c # cs) =
     (if c = sep then [] # split_on sep cs
      else (case split_on sep cs of
              [] \<Rightarrow> [[c]]
            | x # xs \<Rightarrow> (c # x) # xs))"

section \<open>ToolInvocationBadge\<close>

text \<open>The rendered tree: elements with their \<^verbatim>\<open>className\<close>, lucide icons, text nodes.\<close>

datatype icon_name = Loader2 | FileEdit | FilePlus | Eye | FileText | FolderEdit | Trash2

datatype element =
    Div string "element list"
  | Span string "element list"
  | Icon icon_name string
  | Text string

datatype tool_state = Partial | PartialCall | Call | Result

text \<open>
  \<^verbatim>\<open>const path = args?.path || "file"; const fileName = path.split("/").pop() || path;\<close>
  A truthy \<^verbatim>\<open>path\<close> that is not a string has no \<^verbatim>\<open>split\<close>: calling it throws a TypeError.
\<close>

definition pop_or :: "string \<Rightarrow> string" where
  "pop_or path = (let l = last (split_on CHR ''/'' path) in if l \<noteq> [] then l else path)"

definition fileNameOf :: "js_value \<Rightarrow> js_error + string" where
  "fileNameOf args =
     (let p = opt_prop args ''path'' in
      if \<not> truthy p then Inr (pop_or ''file'')
      else (case p of Str s \<Rightarrow> Inr (pop_or s) | _ \<Rightarrow> Inl TypeError))"

text \<open>
  \<^verbatim>\<open>const newPath = args?.new_path; const newFileName = newPath?.split("/").pop() || newPath;\<close>
  The optional chain stops only at \<^verbatim>\<open>null\<close> and \<^verbatim>\<open>undefined\<close>; the result is a string or
  stays \<^verbatim>\<open>null\<close>/\<^verbatim>\<open>undefined\<close>.
\<close>

definition newFileNameOf :: "js_value \<Rightarrow> js_error + js_value" where
  "newFileNameOf args =
     (case opt_prop args ''new_path'' of
        Undefined \<Rightarrow> Inr Undefined
      | Null \<Rightarrow> Inr Null
      | Str s \<Rightarrow> Inr (Str (pop_or s))
      | _ \<Rightarrow> Inl TypeError)"

definition lucide :: "icon_name \<Rightarrow> element" where
  "lucide i = Icon i ''w-3 h-3''"

definition getToolDisplayInfo :: "string \<Rightarrow> js_value \<Rightarrow> js_error + (element \<times> string)" where
  "getToolDisplayInfo toolName args =
     (if toolName = ''str_replace_editor'' then
        (let command = opt_prop args ''command'' in
         case fileNameOf args of
           Inl e \<Rightarrow> Inl e
         | Inr fileName \<Rightarrow>
             if command = Str ''create'' then Inr (lucide FilePlus, ''Creating '' @ fileName)
             else if command = Str ''str_replace'' then Inr (lucide FileEdit, ''Editing '' @ fileName)
             else if command = Str ''insert'' then Inr (lucide FileEdit, ''Inserting into '' @ fileName)
             else if command = Str ''view'' then Inr (lucide Eye, ''Viewing '' @ fileName)
             else if command = Str ''undo_edit'' then Inr (lucide FileEdit, ''Undoing edit in '' @ fileName)
             else Inr (lucide FileText, ''Modifying '' @ fileName))
      else if toolName = ''file_manager'' then
        (let command = opt_prop args ''command'' in
         case fileNameOf args of
           Inl e \<Rightarrow> Inl e
         | Inr fileName \<Rightarrow>
            (case newFileNameOf args of
               Inl e \<Rightarrow> Inl e
             | Inr newFileName \<Rightarrow>
                 if command = Str ''rename'' then
                   Inr (lucide FolderEdit,
                        (case newFileName of
                           Str n \<Rightarrow> if n \<noteq> [] then ''Renaming '' @ fileName @ '' to '' @ n
                                    else ''Renaming '' @ fileName
                         | _ \<Rightarrow> ''Renaming '' @ fileName))
                 else if command = Str ''delete'' then Inr (lucide Trash2, ''Deleting '' @ fileName)
                 else Inr (lucide FolderEdit, ''Managing '' @ fileName)))
      else Inr (lucide FileText, toolName))"

text \<open>
  The component: \<^verbatim>\<open>isCompleted = state === "result" && result !== undefined\<close> chooses the
  first child, the two spans are the same in both branches. An absent \<^verbatim>\<open>result\<close> prop is
  \<^verbatim>\<open>Undefined\<close>. A throw of \<^verbatim>\<open>getToolDisplayInfo\<close> is a throw of the component.
\<close>

definition isCompleted :: "tool_state \<Rightarrow> js_value \<Rightarrow> bool" where
  "isCompleted state result = (state = Result \<and> result \<noteq> Undefined)"

definition ToolInvocationBadge ::
  "string \<Rightarrow> js_value \<Rightarrow> tool_state \<Rightarrow> js_value \<Rightarrow> js_error + element" where
  "ToolInvocationBadge toolName args state result =
     (case getToolDisplayInfo toolName args of
        Inl e \<Rightarrow> Inl e
      | Inr (icon, message) \<Rightarrow>
          Inr (Div ''inline-flex items-center gap-2 mt-2 px-3 py-1.5 bg-neutral-50 rounded-lg text-xs border border-neutral-200''
            (if isCompleted state result then
               [Div ''w-2 h-2 rounded-full bg-emerald-500'' [],
                Span ''text-neutral-600'' [icon],
                Span ''text-neutral-700'' [Text message]]
             else
               [Icon Loader2 ''w-3 h-3 animate-spin text-blue-600'',
                Span ''text-neutral-600'' [icon],
                Span ''text-neutral-700'' [Text message]])))"

text \<open>
  What the tests look for: an element carrying a class (\<^verbatim>\<open>querySelector(".bg-emerald-500")\<close>),
  and the spans of the badge.
\<close>

definition classes :: "string \<Rightarrow> string list" where
  "classes cls = filter (\<lambda>c. c \<noteq> []) (split_on CHR '' '' cls)"

fun has_class :: "string \<Rightarrow> element \<Rightarrow> bool" where
  "has_class c (Div cls kids) = (c \<in> set (classes cls) \<or> list_ex (has_class c) kids)"
| "has_class c (Span cls kids) = (c \<in> set (classes cls) \<or> list_ex (has_class c) kids)"
| "has_class c (Icon i cls) = (c \<in> set (classes cls))"
| "has_class c (Text t) = False"

fun spans :: "element \<Rightarrow> element list" where
  "spans (Div cls kids) = concat (map spans kids)"
| "spans (Span cls kids) = [Span cls kids]"
| "spans (Icon i cls) = []"
| "spans (Text t) = []"

text \<open>The inputs on which the two \<^verbatim>\<open>split\<close> calls have a string to work on.\<close>

definition path_ok :: "js_value \<Rightarrow> bool" where
  "path_ok args = (case opt_prop args ''path'' of Str s \<Rightarrow> True | v \<Rightarrow> \<not> truthy v)"

definition new_path_ok :: "js_value \<Rightarrow> bool" where
  "new_path_ok args =
     (case opt_prop args ''new_path'' of
        Str s \<Rightarrow> True | Undefined \<Rightarrow> True | Null \<Rightarrow> True | _ \<Rightarrow> False)"

section \<open>ChatProvider: the custom fetch\<close>

text \<open>
  Object spread \<^verbatim>\<open>{...v}\<close> copies the own enumerable properties of \<open>v\<close>: of an object its
  bindings, of an array its elements under their indices, of a string its characters
  under their indices, of any other value nothing.
\<close>

function show_nat :: "nat \<Rightarrow> string" where
  "show_nat n =
     (if n < 10 then [''0123456789'' ! n]
      else show_nat (n div 10) @ [''0123456789'' ! (n mod 10)])"
  by pat_completeness auto
termination
  by (relation "measure id") auto

fun spread :: "js_value \<Rightarrow> (string \<times> js_value) list" where
  "spread (Obj kvs) = kvs"
| "spread (Arr xs) = zip (map show_nat [0..<length xs]) xs"
| "spread (Str s) = zip (map show_nat [0..<length s]) (map (\<lambda>c. Str [c]) s)"
| "spread _ = []"

text \<open>The own property \<open>k\<close> of an object, \<open>None\<close> when it has none.\<close>

fun own_prop :: "js_value \<Rightarrow> string \<Rightarrow> js_value option" where
  "own_prop (Obj kvs) k = map_of kvs k"
| "own_prop _ k = None"

text \<open>
  \<^verbatim>\<open>RequestInit\<close>: the body, and the other fields (method, headers, signal) as they come.
  The call of the global \<^verbatim>\<open>fetch\<close> that the custom fetch ends with is recorded as data.
\<close>

record 'r request_init =
  body :: "string option"
  rest :: 'r

record ('i, 'r) fetch_call =
  input :: 'i
  init_rest :: "'r option"
  sent_body :: string

text \<open>\<^verbatim>\<open>init?.body as string || '{}'\<close>: an absent init, an absent body and the empty string give \<^verbatim>\<open>'{}'\<close>.\<close>

definition body_text :: "'r request_init option \<Rightarrow> string" where
  "body_text init =
     (case init of
        None \<Rightarrow> ''{}''
      | Some i \<Rightarrow> (case body i of None \<Rightarrow> ''{}'' | Some s \<Rightarrow> if s = [] then ''{}'' else s))"

text \<open>\<^verbatim>\<open>{ ...body, files: fileSystem.serialize(), projectId }\<close>: later keys overwrite spread ones.\<close>

definition enhancedBody :: "js_value \<Rightarrow> js_value \<Rightarrow> string option \<Rightarrow> js_value" where
  "enhancedBody parsed files projectId =
     Obj (AList.update ''projectId'' (case projectId of None \<Rightarrow> Undefined | Some p \<Rightarrow> Str p)
           (AList.update ''files'' files (spread parsed)))"

text \<open>
  The \<^verbatim>\<open>fetch\<close> option of \<^verbatim>\<open>useAIChat\<close>. \<^verbatim>\<open>JSON.parse\<close> (\<open>None\<close> when it throws a SyntaxError)
  and \<^verbatim>\<open>JSON.stringify\<close> are parameters, and so is \<open>files\<close>, the value of
  \<^verbatim>\<open>fileSystem.serialize()\<close> at the time of the call.
\<close>

definition customFetch ::
  "(string \<Rightarrow> js_value option) \<Rightarrow> (js_value \<Rightarrow> string) \<Rightarrow> js_value \<Rightarrow> string option
     \<Rightarrow> 'i \<Rightarrow> 'r request_init option \<Rightarrow> js_error + ('i, 'r) fetch_call" where
  "customFetch parse stringify files projectId inp init =
     (case parse (body_text init) of
        None \<Rightarrow> Inl SyntaxError
      | Some parsed \<Rightarrow>
          Inr \<lparr>input = inp, init_rest = map_option rest init,
               sent_body = stringify (enhancedBody parsed files projectId)\<rparr>)"

section \<open>VirtualFileSystem\<close>

text \<open>
  The class \<^verbatim>\<open>VirtualFileSystem\<close> (\<^verbatim>\<open>src/lib/file-system.ts\<close>) is not among the sources
  at hand: only its caller \<^verbatim>\<open>ChatProvider\<close> (\<^verbatim>\<open>fileSystem.serialize()\<close>) is. The definitions
  of this section follow sections 3, 4.1, 6 and 7 of the specification. The tree is the
  node table keyed by normalized path of its section 9; a path is kept as the list of its
  segments, the root being the empty list.
\<close>

text \<open>Modelled from the spec: the error taxonomy of the VFS layer (section 7).\<close>

datatype vfs_error = PathConflict | NotFound | InvalidOperation | InvalidSnapshot

text \<open>
  Modelled from the spec: FileSystemNode (section 3), a file with its content and
  lastModified timestamp, or a directory; the node's path is its key in the table.
\<close>

datatype node = File string nat | Directory

type_synonym path = "string list"

type_synonym tree = "(path \<times> node) list"

text \<open>
  Modelled from the spec: the snapshot format (section 6), a mapping from absolute path
  to \<^verbatim>\<open>{type: "file"|"directory", content?: string}\<close>, held as the list of its entries.
\<close>

record snapshot_entry =
  type :: string
  content :: "string option"

type_synonym snapshot = "(string \<times> snapshot_entry) list"

text \<open>
  Modelled from the spec: path normalization (section 4.1), in the three steps it names:
  collapse \<^verbatim>\<open>//\<close>, strip the trailing slash except for the root, ensure a leading slash.
\<close>

fun collapse :: "string \<Rightarrow> string" where
  "collapse [] = []"
| "collapse [a] = [a]"
| "collapse (a # b # r) =
     (if a = CHR ''/'' \<and> b = CHR ''/'' then collapse (b # r) else a # collapse (b # r))"

text \<open>Modelled from the spec: dropping one trailing slash.\<close>

definition drop_slash :: "string \<Rightarrow> string" where
  "drop_slash s = (if s \<noteq> [] \<and> last s = CHR ''/'' then butlast s else s)"

text \<open>Modelled from the spec: strip the trailing slash except for the root.\<close>

definition strip_trailing :: "string \<Rightarrow> string" where
  "strip_trailing s = (if s = ''/'' then s else drop_slash s)"

text \<open>Modelled from the spec: ensure a leading slash; the empty path is the root.\<close>

definition ensure_leading :: "string \<Rightarrow> string" where
  "ensure_leading s = (case s of [] \<Rightarrow> ''/'' | c # r \<Rightarrow> if c = CHR ''/'' then s else CHR ''/'' # s)"

text \<open>Modelled from the spec: the canonical form every public operation works on.\<close>

definition normalizePath :: "string \<Rightarrow> string" where
  "normalizePath s = ensure_leading (strip_trailing (collapse s))"

text \<open>
  Modelled from the spec: the names along a path (section 3: a node's path is the
  concatenation of its ancestors' names), and the absolute path string of a list of names.
\<close>

definition segments :: "string \<Rightarrow> path" where
  "segments s = filter (\<lambda>x. x \<noteq> []) (split_on CHR ''/'' s)"

definition render :: "path \<Rightarrow> string" where
  "render p = (if p = [] then ''/'' else concat (map (\<lambda>x. CHR ''/'' # x) p))"

text \<open>Modelled from the spec: the tree as constructed empty, holding only the root.\<close>

definition emptyTree :: tree where
  "emptyTree = [([], Directory)]"

text \<open>
  Modelled from the spec: creation of the missing ancestor directories (mkdir -p): the
  names \<open>xs\<close> are walked below \<open>q\<close>; a directory on the way is kept, a missing one is
  created, a file on the way is a PathConflict.
\<close>

fun mkdirp :: "tree \<Rightarrow> path \<Rightarrow> path \<Rightarrow> vfs_error + tree" where
  "mkdirp T q [] = Inr T"
| "mkdirp T q (x # xs) =
     (case map_of T (q @ [x]) of
        Some (File c t) \<Rightarrow> Inl PathConflict
      | Some Directory \<Rightarrow> mkdirp T (q @ [x]) xs
      | None \<Rightarrow> mkdirp (T @ [(q @ [x], Directory)]) (q @ [x]) xs)"

text \<open>
  Modelled from the spec: \<^verbatim>\<open>createDirectory(path)\<close>, with the same ancestor rule; a no-op
  when the directory exists, PathConflict when a file occupies the path. An operation
  returns its outcome and the tree after it; a failed one returns the tree it was given.
\<close>

definition createDirectory :: "tree \<Rightarrow> string \<Rightarrow> (vfs_error + unit) \<times> tree" where
  "createDirectory T s =
     (case mkdirp T [] (segments (normalizePath s)) of
        Inl e \<Rightarrow> (Inl e, T)
      | Inr T' \<Rightarrow> (Inr (), T'))"

text \<open>
  Modelled from the spec: \<^verbatim>\<open>createFile(path, content)\<close>, in the order of its sentence:
  normalize the path, create the missing ancestor directories, overwrite the content of
  a file already there, fail with PathConflict when a directory occupies the path.
  \<open>now\<close> is the clock reading that becomes lastModified.
\<close>

definition createFile :: "nat \<Rightarrow> tree \<Rightarrow> string \<Rightarrow> string \<Rightarrow> (vfs_error + unit) \<times> tree" where
  "createFile now T s c =
     (let p = segments (normalizePath s) in
      case mkdirp T [] (butlast p) of
        Inl e \<Rightarrow> (Inl e, T)
      | Inr T' \<Rightarrow>
          (case map_of T' p of
             Some Directory \<Rightarrow> (Inl PathConflict, T)
           | _ \<Rightarrow> (Inr (), AList.update p (File c now) T')))"

text \<open>Modelled from the spec: \<^verbatim>\<open>readFile(path)\<close>, NotFound unless the path resolves to a file.\<close>

definition readFile :: "tree \<Rightarrow> string \<Rightarrow> vfs_error + string" where
  "readFile T s =
     (case map_of T (segments (normalizePath s)) of
        Some (File c t) \<Rightarrow> Inr c
      | _ \<Rightarrow> Inl NotFound)"

text \<open>Modelled from the spec: \<^verbatim>\<open>exists(path)\<close>.\<close>

definition exists :: "tree \<Rightarrow> string \<Rightarrow> bool" where
  "exists T s = (map_of T (segments (normalizePath s)) \<noteq> None)"

text \<open>
  Modelled from the spec: \<^verbatim>\<open>serialize()\<close>, the path-keyed flattening in which every file
  and every directory, the empty ones and the root included, is represented.
\<close>

definition entry_of :: "node \<Rightarrow> snapshot_entry" where
  "entry_of n =
     (case n of
        File c t \<Rightarrow> \<lparr>type = ''file'', content = Some c\<rparr>
      | Directory \<Rightarrow> \<lparr>type = ''directory'', content = None\<rparr>)"

definition serialize :: "tree \<Rightarrow> snapshot" where
  "serialize T = map (\<lambda>(p, n). (render p, entry_of n)) T"

text \<open>
  Modelled from the spec: \<^verbatim>\<open>deserialize(snapshot)\<close>. An entry of unknown type is
  malformed; the directories are created first, ancestors before descendants (ordered by
  depth), then the files, on a tree holding only the root; any failure on the way is
  InvalidSnapshot and leaves the existing tree as it was. The spec does not say what a
  file entry without content holds: it is read as the empty content.
\<close>

definition well_formed_entry :: "snapshot_entry \<Rightarrow> bool" where
  "well_formed_entry e = (type e = ''file'' \<or> type e = ''directory'')"

definition directories_of :: "snapshot \<Rightarrow> string list" where
  "directories_of S = map fst (filter (\<lambda>(k, e). type e = ''directory'') S)"

definition files_of :: "snapshot \<Rightarrow> (string \<times> string) list" where
  "files_of S =
     map (\<lambda>(k, e). (k, case content e of None \<Rightarrow> [] | Some c \<Rightarrow> c))
       (filter (\<lambda>(k, e). type e = ''file'') S)"

fun create_directories :: "tree \<Rightarrow> string list \<Rightarrow> vfs_error + tree" where
  "create_directories T [] = Inr T"
| "create_directories T (d # ds) =
     (case createDirectory T d of
        (Inl e, U) \<Rightarrow> Inl e
      | (Inr u, U) \<Rightarrow> create_directories U ds)"

fun create_files :: "nat \<Rightarrow> tree \<Rightarrow> (string \<times> string) list \<Rightarrow> vfs_error + tree" where
  "create_files now T [] = Inr T"
| "create_files now T ((k, c) # fs) =
     (case createFile now T k c of
        (Inl e, U) \<Rightarrow> Inl e
      | (Inr u, U) \<Rightarrow> create_files now U fs)"

definition deserialize :: "nat \<Rightarrow> tree \<Rightarrow> snapshot \<Rightarrow> (vfs_error + unit) \<times> tree" where
  "deserialize now T S =
     (if \<not> list_all (\<lambda>(k, e). well_formed_entry e) S then (Inl InvalidSnapshot, T)
      else
        (case create_directories emptyTree
                (sort_key (\<lambda>k. length (segments (normalizePath k))) (directories_of S)) of
           Inl e \<Rightarrow> (Inl InvalidSnapshot, T)
         | Inr D \<Rightarrow>
             (case create_files now D (files_of S) of
                Inl e \<Rightarrow> (Inl InvalidSnapshot, T)
              | Inr T' \<Rightarrow> (Inr (), T'))))"

text \<open>
  Modelled from the spec: \<^verbatim>\<open>updateFile(path, content)\<close>, NotFound unless a file is there;
  it does not create.
\<close>

definition updateFile :: "nat \<Rightarrow> tree \<Rightarrow> string \<Rightarrow> string \<Rightarrow> (vfs_error + unit) \<times> tree" where
  "updateFile now T s c =
     (let p = segments (normalizePath s) in
      case map_of T p of
        Some (File c0 t0) \<Rightarrow> (Inr (), AList.update p (File c now) T)
      | _ \<Rightarrow> (Inl NotFound, T))"

text \<open>
  Modelled from the spec: \<^verbatim>\<open>deleteNode(path)\<close>, which removes the node and, for a
  directory, its whole subtree; NotFound when absent, InvalidOperation for the root.
\<close>

definition deleteNode :: "tree \<Rightarrow> string \<Rightarrow> (vfs_error + unit) \<times> tree" where
  "deleteNode T s =
     (let p = segments (normalizePath s) in
      case map_of T p of
        None \<Rightarrow> (Inl NotFound, T)
      | Some n \<Rightarrow>
          if p = [] then (Inl InvalidOperation, T)
          else (Inr (), filter (\<lambda>(q, m). \<not> prefix p q) T))"



text \<open>
  Modelled from the spec: the invariants of section 3. Paths are unique, there is one
  root directory, every name is a proper name, and the parent of every other node is a
  directory of the tree.
\<close>

definition valid_segment :: "string \<Rightarrow> bool" where
  "valid_segment x = (x \<noteq> [] \<and> CHR ''/'' \<notin> set x)"

definition wf_tree :: "tree \<Rightarrow> bool" where
  "wf_tree T =
     (distinct (map fst T) \<and> map_of T [] = Some Directory
      \<and> list_all (\<lambda>(p, n). list_all valid_segment p
                    \<and> (p \<noteq> [] \<longrightarrow> map_of T (butlast p) = Some Directory)) T)"

text \<open>
  Modelled from the spec: the trees of an editing session, constructed empty or hydrated
  from a snapshot and changed by creating, updating and deleting. Renaming is left out of
  this relation: read as its sentence stands, a rename may move the root or a directory
  into its own subtree, and the spec states no guard against either.
\<close>

inductive reachable :: "tree \<Rightarrow> bool" where
  reach_empty: "reachable emptyTree"
| reach_file: "reachable T \<Longrightarrow> createFile now T s c = (r, T') \<Longrightarrow> reachable T'"
| reach_directory: "reachable T \<Longrightarrow> createDirectory T s = (r, T') \<Longrightarrow> reachable T'"
| reach_update: "reachable T \<Longrightarrow> updateFile now T s c = (r, T') \<Longrightarrow> reachable T'"
| reach_delete: "reachable T \<Longrightarrow> deleteNode T s = (r, T') \<Longrightarrow> reachable T'"
| reach_snapshot: "reachable T \<Longrightarrow> deserialize now T S = (r, T') \<Longrightarrow> reachable T'"



text \<open>
  Notions of the proofs below: the names of a path joined with a slash before each, a
  node with its timestamp set anew, and what holds of the tree under construction while
  \<^verbatim>\<open>deserialize\<close> replays a snapshot of \<open>T\<close>.
\<close>

definition joined :: "string \<Rightarrow> string" where
  "joined s = concat (map (\<lambda>x. CHR ''/'' # x) (segments s))"

definition retime :: "nat \<Rightarrow> node \<Rightarrow> node" where
  "retime now n = (case n of File c t \<Rightarrow> File c now | Directory \<Rightarrow> Directory)"

definition dirs_within :: "tree \<Rightarrow> tree \<Rightarrow> bool" where
  "dirs_within T U \<longleftrightarrow>
     distinct (map fst U) \<and> map_of U [] = Some Directory
     \<and> (\<forall>q n. map_of U q = Some n \<longrightarrow> n = Directory \<and> map_of T q = Some Directory)"

definition files_within :: "nat \<Rightarrow> tree \<Rightarrow> tree \<Rightarrow> bool" where
  "files_within now T U \<longleftrightarrow>
     distinct (map fst U)
     \<and> (\<forall>p. map_of T p = Some Directory \<longrightarrow> map_of U p = Some Directory)
     \<and> (\<forall>q n. map_of U q = Some n \<longrightarrow> (\<exists>n'. map_of T q = Some n' \<and> n = retime now n'))"

section \<open>Properties of getToolDisplayInfo and ToolInvocationBadge\<close>

lemma fileNameOf_cases:
  "(path_ok args \<and> (\<exists>f. fileNameOf args = Inr f))
     \<or> (\<not> path_ok args \<and> fileNameOf args = Inl TypeError)"
  by (auto simp: path_ok_def fileNameOf_def Let_def split: js_value.splits)

lemma newFileNameOf_cases:
  "(new_path_ok args \<and> (\<exists>f. newFileNameOf args = Inr f))
     \<or> (\<not> new_path_ok args \<and> newFileNameOf args = Inl TypeError)"
  by (auto simp: new_path_ok_def newFileNameOf_def split: js_value.splits)

lemma fileNameOf_falsy: "\<not> truthy (opt_prop args ''path'') \<Longrightarrow> fileNameOf args = Inr ''file''"
  by (simp add: fileNameOf_def pop_or_def)

lemma getToolDisplayInfo_returns_iff:
  "(\<exists>icon message. getToolDisplayInfo toolName args = Inr (icon, message)) \<longleftrightarrow>
     ((toolName = ''str_replace_editor'' \<or> toolName = ''file_manager'') \<longrightarrow> path_ok args)
       \<and> (toolName = ''file_manager'' \<longrightarrow> new_path_ok args)"
proof -
  consider (editor) "toolName = ''str_replace_editor''" | (manager) "toolName = ''file_manager''"
    | (other) "toolName \<noteq> ''str_replace_editor''" "toolName \<noteq> ''file_manager''" by blast
  then show ?thesis
  proof cases
    case editor
    then show ?thesis using fileNameOf_cases [of args]
      by (auto simp: getToolDisplayInfo_def Let_def)
  next
    case manager
    then show ?thesis using fileNameOf_cases [of args] newFileNameOf_cases [of args]
      by (auto simp: getToolDisplayInfo_def Let_def)
  next
    case other
    then show ?thesis by (simp add: getToolDisplayInfo_def)
  qed
qed

lemma getToolDisplayInfo_error: "getToolDisplayInfo toolName args = Inl e \<Longrightarrow> e = TypeError"
  using fileNameOf_cases [of args] newFileNameOf_cases [of args]
  by (auto simp: getToolDisplayInfo_def Let_def split: if_splits sum.splits)

lemma getToolDisplayInfo_throws_iff:
  "getToolDisplayInfo toolName args = Inl TypeError \<longleftrightarrow>
     \<not> (((toolName = ''str_replace_editor'' \<or> toolName = ''file_manager'') \<longrightarrow> path_ok args)
       \<and> (toolName = ''file_manager'' \<longrightarrow> new_path_ok args))"
proof -
  have "getToolDisplayInfo toolName args = Inl TypeError
          \<longleftrightarrow> \<not> (\<exists>icon message. getToolDisplayInfo toolName args = Inr (icon, message))"
    using getToolDisplayInfo_error [of toolName args]
    by (cases "getToolDisplayInfo toolName args") auto
  then show ?thesis by (simp only: getToolDisplayInfo_returns_iff)
qed

lemma editor_file:
  assumes "\<not> truthy (opt_prop args ''path'')"
  shows "getToolDisplayInfo ''str_replace_editor'' args =
      Inr (if opt_prop args ''command'' = Str ''create'' then (lucide FilePlus, ''Creating file'')
           else if opt_prop args ''command'' = Str ''str_replace'' then (lucide FileEdit, ''Editing file'')
           else if opt_prop args ''command'' = Str ''insert'' then (lucide FileEdit, ''Inserting into file'')
           else if opt_prop args ''command'' = Str ''view'' then (lucide Eye, ''Viewing file'')
           else if opt_prop args ''command'' = Str ''undo_edit'' then (lucide FileEdit, ''Undoing edit in file'')
           else (lucide FileText, ''Modifying file''))"
  using assms by (simp add: getToolDisplayInfo_def fileNameOf_falsy)

lemma pop_or_empty: "pop_or s = [] \<longleftrightarrow> s = []"
  by (auto simp: pop_or_def Let_def)

lemma manager_file:
  assumes "\<not> truthy (opt_prop args ''path'')" and "new_path_ok args"
  shows "getToolDisplayInfo ''file_manager'' args =
      Inr (if opt_prop args ''command'' = Str ''rename'' then
             (lucide FolderEdit,
              (case opt_prop args ''new_path'' of
                 Str n \<Rightarrow> if n \<noteq> [] then ''Renaming file to '' @ pop_or n else ''Renaming file''
               | _ \<Rightarrow> ''Renaming file''))
           else if opt_prop args ''command'' = Str ''delete'' then (lucide Trash2, ''Deleting file'')
           else (lucide FolderEdit, ''Managing file''))"
  using assms
  by (auto simp: getToolDisplayInfo_def fileNameOf_falsy newFileNameOf_def new_path_ok_def pop_or_empty
      split: js_value.splits)

text \<open>
  C8, as the code has it. \<^verbatim>\<open>getToolDisplayInfo\<close> returns an icon and a message exactly when
  the two \<^verbatim>\<open>split\<close> calls have a string to work on: for the two known tools \<^verbatim>\<open>args?.path\<close>
  is falsy or a string, and for \<^verbatim>\<open>file_manager\<close> \<^verbatim>\<open>args?.new_path\<close> is null, undefined or a
  string. On every other input it throws a TypeError, and it throws nothing else. Null
  args and undefined args return for both tools; an args object without a path returns
  for \<^verbatim>\<open>str_replace_editor\<close>, and for \<^verbatim>\<open>file_manager\<close> when its \<^verbatim>\<open>new_path\<close> allows.
  When the path is absent or otherwise falsy the file name shown is the literal
  \<^verbatim>\<open>file\<close> in every branch of both tools (\<^verbatim>\<open>Creating file\<close> for the create command); for
  any other tool name the result is the tool name, whatever the args.
\<close>

theorem getToolDisplayInfo_total:
  "((\<exists>icon message. getToolDisplayInfo toolName args = Inr (icon, message)) \<longleftrightarrow>
      ((toolName = ''str_replace_editor'' \<or> toolName = ''file_manager'') \<longrightarrow> path_ok args)
        \<and> (toolName = ''file_manager'' \<longrightarrow> new_path_ok args))
   \<and> (getToolDisplayInfo toolName args = Inl TypeError \<longleftrightarrow>
        \<not> (((toolName = ''str_replace_editor'' \<or> toolName = ''file_manager'') \<longrightarrow> path_ok args)
             \<and> (toolName = ''file_manager'' \<longrightarrow> new_path_ok args)))
   \<and> (\<not> truthy (opt_prop args ''path'') \<longrightarrow>
        getToolDisplayInfo ''str_replace_editor'' args =
          Inr (if opt_prop args ''command'' = Str ''create'' then (lucide FilePlus, ''Creating file'')
               else if opt_prop args ''command'' = Str ''str_replace'' then (lucide FileEdit, ''Editing file'')
               else if opt_prop args ''command'' = Str ''insert'' then (lucide FileEdit, ''Inserting into file'')
               else if opt_prop args ''command'' = Str ''view'' then (lucide Eye, ''Viewing file'')
               else if opt_prop args ''command'' = Str ''undo_edit''
                 then (lucide FileEdit, ''Undoing edit in file'')
               else (lucide FileText, ''Modifying file'')))
   \<and> (\<not> truthy (opt_prop args ''path'') \<and> new_path_ok args \<longrightarrow>
        getToolDisplayInfo ''file_manager'' args =
          Inr (if opt_prop args ''command'' = Str ''rename'' then
                 (lucide FolderEdit,
                  (case opt_prop args ''new_path'' of
                     Str n \<Rightarrow> if n \<noteq> [] then ''Renaming file to '' @ pop_or n else ''Renaming file''
                   | _ \<Rightarrow> ''Renaming file''))
               else if opt_prop args ''command'' = Str ''delete'' then (lucide Trash2, ''Deleting file'')
               else (lucide FolderEdit, ''Managing file'')))
   \<and> (toolName \<noteq> ''str_replace_editor'' \<and> toolName \<noteq> ''file_manager''
      \<longrightarrow> getToolDisplayInfo toolName args = Inr (lucide FileText, toolName))"
proof (intro conjI impI)
  show "(\<exists>icon message. getToolDisplayInfo toolName args = Inr (icon, message)) \<longleftrightarrow>
      ((toolName = ''str_replace_editor'' \<or> toolName = ''file_manager'') \<longrightarrow> path_ok args)
        \<and> (toolName = ''file_manager'' \<longrightarrow> new_path_ok args)"
    by (rule getToolDisplayInfo_returns_iff)
  show "getToolDisplayInfo toolName args = Inl TypeError \<longleftrightarrow>
        \<not> (((toolName = ''str_replace_editor'' \<or> toolName = ''file_manager'') \<longrightarrow> path_ok args)
             \<and> (toolName = ''file_manager'' \<longrightarrow> new_path_ok args))"
    by (rule getToolDisplayInfo_throws_iff)
next
  assume "\<not> truthy (opt_prop args ''path'')"
  then show "getToolDisplayInfo ''str_replace_editor'' args =
          Inr (if opt_prop args ''command'' = Str ''create'' then (lucide FilePlus, ''Creating file'')
               else if opt_prop args ''command'' = Str ''str_replace'' then (lucide FileEdit, ''Editing file'')
               else if opt_prop args ''command'' = Str ''insert'' then (lucide FileEdit, ''Inserting into file'')
               else if opt_prop args ''command'' = Str ''view'' then (lucide Eye, ''Viewing file'')
               else if opt_prop args ''command'' = Str ''undo_edit''
                 then (lucide FileEdit, ''Undoing edit in file'')
               else (lucide FileText, ''Modifying file''))"
    by (rule editor_file)
next
  assume "\<not> truthy (opt_prop args ''path'') \<and> new_path_ok args"
  then show "getToolDisplayInfo ''file_manager'' args =
          Inr (if opt_prop args ''command'' = Str ''rename'' then
                 (lucide FolderEdit,
                  (case opt_prop args ''new_path'' of
                     Str n \<Rightarrow> if n \<noteq> [] then ''Renaming file to '' @ pop_or n else ''Renaming file''
                   | _ \<Rightarrow> ''Renaming file''))
               else if opt_prop args ''command'' = Str ''delete'' then (lucide Trash2, ''Deleting file'')
               else (lucide FolderEdit, ''Managing file''))"
    using manager_file by blast
next
  assume "toolName \<noteq> ''str_replace_editor'' \<and> toolName \<noteq> ''file_manager''"
  then show "getToolDisplayInfo toolName args = Inr (lucide FileText, toolName)"
    by (simp add: getToolDisplayInfo_def)
qed

text \<open>
  The theorem at null args for both tools, at args objects without a path, at a
  \<^verbatim>\<open>new_path\<close> that is a number, and at an unknown tool.
\<close>

theorem getToolDisplayInfo_total_witness:
  "getToolDisplayInfo ''str_replace_editor'' Null = Inr (lucide FileText, ''Modifying file'')
   \<and> getToolDisplayInfo ''file_manager'' Null = Inr (lucide FolderEdit, ''Managing file'')
   \<and> getToolDisplayInfo ''str_replace_editor'' (Obj [(''command'', Str ''create'')])
       = Inr (lucide FilePlus, ''Creating file'')
   \<and> getToolDisplayInfo ''file_manager'' (Obj [(''command'', Str ''delete'')])
       = Inr (lucide Trash2, ''Deleting file'')
   \<and> getToolDisplayInfo ''file_manager'' (Obj [(''new_path'', Num 42)]) = Inl TypeError
   \<and> getToolDisplayInfo ''file_manager''
         (Obj [(''command'', Str ''rename''), (''new_path'', Str ''/src/NewButton.tsx'')])
       = Inr (lucide FolderEdit, ''Renaming file to NewButton.tsx'')
   \<and> getToolDisplayInfo ''unknown_tool'' (Obj []) = Inr (lucide FileText, ''unknown_tool'')"
proof -
  have 1: "getToolDisplayInfo ''str_replace_editor'' Null = Inr (lucide FileText, ''Modifying file'')"
    using getToolDisplayInfo_total [of "''str_replace_editor''" Null] by simp
  have 2: "getToolDisplayInfo ''file_manager'' Null = Inr (lucide FolderEdit, ''Managing file'')"
    using getToolDisplayInfo_total [of "''file_manager''" Null] by (simp add: new_path_ok_def)
  have 3: "getToolDisplayInfo ''str_replace_editor'' (Obj [(''command'', Str ''create'')])
       = Inr (lucide FilePlus, ''Creating file'')"
    using getToolDisplayInfo_total [of "''str_replace_editor''" "Obj [(''command'', Str ''create'')]"]
    by simp
  have 4: "getToolDisplayInfo ''file_manager'' (Obj [(''command'', Str ''delete'')])
       = Inr (lucide Trash2, ''Deleting file'')"
    using getToolDisplayInfo_total [of "''file_manager''" "Obj [(''command'', Str ''delete'')]"]
    by (simp add: new_path_ok_def)
  have 5: "getToolDisplayInfo ''file_manager'' (Obj [(''new_path'', Num 42)]) = Inl TypeError"
    using getToolDisplayInfo_total [of "''file_manager''" "Obj [(''new_path'', Num 42)]"]
    by (simp add: new_path_ok_def)
  have 6: "getToolDisplayInfo ''unknown_tool'' (Obj []) = Inr (lucide FileText, ''unknown_tool'')"
    using getToolDisplayInfo_total [of "''unknown_tool''" "Obj []"] by simp
  have 7: "getToolDisplayInfo ''file_manager''
         (Obj [(''command'', Str ''rename''), (''new_path'', Str ''/src/NewButton.tsx'')])
       = Inr (lucide FolderEdit, ''Renaming file to NewButton.tsx'')"
    using getToolDisplayInfo_total [of "''file_manager''"
        "Obj [(''command'', Str ''rename''), (''new_path'', Str ''/src/NewButton.tsx'')]"]
    by (simp add: new_path_ok_def pop_or_def)
  from 1 2 3 4 5 6 7 show ?thesis by blast
qed

text \<open>
  C8 as stated fails: with \<^verbatim>\<open>args = {command: "create", path: 42}\<close> the path is truthy,
  \<^verbatim>\<open>(42).split\<close> is undefined and the call throws.
\<close>

theorem getToolDisplayInfo_throws:
  "getToolDisplayInfo ''str_replace_editor'' (Obj [(''command'', Str ''create''), (''path'', Num 42)])
     = Inl TypeError"
  by (simp add: getToolDisplayInfo_def fileNameOf_def)

lemma getToolDisplayInfo_icon:
  assumes "getToolDisplayInfo toolName args = Inr (icon, message)"
  shows "\<exists>i. icon = lucide i"
  using assms
  by (auto simp: getToolDisplayInfo_def Let_def split: if_splits sum.splits)

lemma classes_badge:
  "classes ''inline-flex items-center gap-2 mt-2 px-3 py-1.5 bg-neutral-50 rounded-lg text-xs border border-neutral-200''
     = [''inline-flex'', ''items-center'', ''gap-2'', ''mt-2'', ''px-3'', ''py-1.5'', ''bg-neutral-50'',
        ''rounded-lg'', ''text-xs'', ''border'', ''border-neutral-200'']"
  by (simp add: classes_def)

lemma classes_dot:
  "classes ''w-2 h-2 rounded-full bg-emerald-500'' = [''w-2'', ''h-2'', ''rounded-full'', ''bg-emerald-500'']"
  by (simp add: classes_def)

lemma classes_spinner:
  "classes ''w-3 h-3 animate-spin text-blue-600'' = [''w-3'', ''h-3'', ''animate-spin'', ''text-blue-600'']"
  by (simp add: classes_def)

lemma classes_small:
  "classes ''w-3 h-3'' = [''w-3'', ''h-3'']"
  "classes ''text-neutral-600'' = [''text-neutral-600'']"
  "classes ''text-neutral-700'' = [''text-neutral-700'']"
  by (simp_all add: classes_def)

lemmas badge_classes = classes_badge classes_dot classes_spinner classes_small

lemma badge_renders:
  assumes "getToolDisplayInfo toolName args = Inr (icon, message)"
  shows "\<exists>el. ToolInvocationBadge toolName args state result = Inr el
           \<and> (has_class ''bg-emerald-500'' el \<longleftrightarrow> state = Result \<and> result \<noteq> Undefined)
           \<and> (has_class ''animate-spin'' el \<longleftrightarrow> \<not> (state = Result \<and> result \<noteq> Undefined))
           \<and> spans el = [Span ''text-neutral-600'' [icon], Span ''text-neutral-700'' [Text message]]"
proof -
  obtain i where i: "icon = lucide i" using getToolDisplayInfo_icon [OF assms] ..
  show ?thesis
  proof (cases "isCompleted state result")
    case True
    then show ?thesis using assms i
      by (simp add: ToolInvocationBadge_def lucide_def badge_classes isCompleted_def)
  next
    case False
    then show ?thesis using assms i
      by (simp add: ToolInvocationBadge_def lucide_def badge_classes isCompleted_def)
  qed
qed

lemma badge_throws: "getToolDisplayInfo toolName args = Inl e \<Longrightarrow>
    ToolInvocationBadge toolName args state result = Inl e"
  by (simp add: ToolInvocationBadge_def)

text \<open>
  C9, as the code has it. The badge renders exactly when \<^verbatim>\<open>getToolDisplayInfo\<close> returns
  for the tool name and args, and throws its TypeError otherwise. When it renders, it
  carries the green dot (class \<^verbatim>\<open>bg-emerald-500\<close>) if and only if the state is
  \<^verbatim>\<open>result\<close> and the result is not undefined; in every other combination of state and
  result it carries the spinner (class \<^verbatim>\<open>animate-spin\<close>) instead. The two spans, holding
  the icon and the message of \<^verbatim>\<open>getToolDisplayInfo\<close>, are the same in both variants.
\<close>

theorem ToolInvocationBadge_indicator:
  "(getToolDisplayInfo toolName args = Inr (icon, message) \<longrightarrow>
      (\<exists>el. ToolInvocationBadge toolName args state result = Inr el
           \<and> (has_class ''bg-emerald-500'' el \<longleftrightarrow> state = Result \<and> result \<noteq> Undefined)
           \<and> (has_class ''animate-spin'' el \<longleftrightarrow> \<not> (state = Result \<and> result \<noteq> Undefined))
           \<and> spans el = [Span ''text-neutral-600'' [icon], Span ''text-neutral-700'' [Text message]]))
   \<and> ((\<exists>el. ToolInvocationBadge toolName args state result = Inr el) \<longleftrightarrow>
        ((toolName = ''str_replace_editor'' \<or> toolName = ''file_manager'') \<longrightarrow> path_ok args)
          \<and> (toolName = ''file_manager'' \<longrightarrow> new_path_ok args))
   \<and> (ToolInvocationBadge toolName args state result = Inl TypeError \<longleftrightarrow>
        \<not> (((toolName = ''str_replace_editor'' \<or> toolName = ''file_manager'') \<longrightarrow> path_ok args)
             \<and> (toolName = ''file_manager'' \<longrightarrow> new_path_ok args)))"
proof (intro conjI impI)
  assume "getToolDisplayInfo toolName args = Inr (icon, message)"
  then show "\<exists>el. ToolInvocationBadge toolName args state result = Inr el
           \<and> (has_class ''bg-emerald-500'' el \<longleftrightarrow> state = Result \<and> result \<noteq> Undefined)
           \<and> (has_class ''animate-spin'' el \<longleftrightarrow> \<not> (state = Result \<and> result \<noteq> Undefined))
           \<and> spans el = [Span ''text-neutral-600'' [icon], Span ''text-neutral-700'' [Text message]]"
    by (rule badge_renders)
next
  have "(\<exists>el. ToolInvocationBadge toolName args state result = Inr el)
          \<longleftrightarrow> (\<exists>icon message. getToolDisplayInfo toolName args = Inr (icon, message))"
    by (cases "getToolDisplayInfo toolName args") (auto simp: ToolInvocationBadge_def)
  then show "(\<exists>el. ToolInvocationBadge toolName args state result = Inr el) \<longleftrightarrow>
        ((toolName = ''str_replace_editor'' \<or> toolName = ''file_manager'') \<longrightarrow> path_ok args)
          \<and> (toolName = ''file_manager'' \<longrightarrow> new_path_ok args)"
    by (simp only: getToolDisplayInfo_returns_iff)
next
  have "ToolInvocationBadge toolName args state result = Inl TypeError
          \<longleftrightarrow> getToolDisplayInfo toolName args = Inl TypeError"
    by (cases "getToolDisplayInfo toolName args") (auto simp: ToolInvocationBadge_def)
  then show "ToolInvocationBadge toolName args state result = Inl TypeError \<longleftrightarrow>
        \<not> (((toolName = ''str_replace_editor'' \<or> toolName = ''file_manager'') \<longrightarrow> path_ok args)
             \<and> (toolName = ''file_manager'' \<longrightarrow> new_path_ok args))"
    by (simp only: getToolDisplayInfo_throws_iff)
qed

text \<open>
  The theorem at the tests "shows loading spinner when result is undefined" and "shows
  green dot when state is 'result' and result exists".
\<close>

theorem ToolInvocationBadge_indicator_witness:
  "getToolDisplayInfo ''str_replace_editor'' (Obj [(''command'', Str ''create''), (''path'', Str ''/App.jsx'')])
     = Inr (lucide FilePlus, ''Creating App.jsx'')
   \<and> (\<exists>el. ToolInvocationBadge ''str_replace_editor''
              (Obj [(''command'', Str ''create''), (''path'', Str ''/App.jsx'')]) Result Undefined = Inr el
        \<and> \<not> has_class ''bg-emerald-500'' el \<and> has_class ''animate-spin'' el
        \<and> spans el = [Span ''text-neutral-600'' [lucide FilePlus],
                       Span ''text-neutral-700'' [Text ''Creating App.jsx'']])
   \<and> (\<exists>el. ToolInvocationBadge ''str_replace_editor''
              (Obj [(''command'', Str ''create''), (''path'', Str ''/App.jsx'')]) Result (Str ''Success'') = Inr el
        \<and> has_class ''bg-emerald-500'' el \<and> \<not> has_class ''animate-spin'' el
        \<and> spans el = [Span ''text-neutral-600'' [lucide FilePlus],
                       Span ''text-neutral-700'' [Text ''Creating App.jsx'']])"
proof -
  let ?args = "Obj [(''command'', Str ''create''), (''path'', Str ''/App.jsx'')]"
  have h: "getToolDisplayInfo ''str_replace_editor'' ?args = Inr (lucide FilePlus, ''Creating App.jsx'')"
    by (simp add: getToolDisplayInfo_def fileNameOf_def pop_or_def)
  note t = ToolInvocationBadge_indicator
    [of "''str_replace_editor''" ?args "lucide FilePlus" "''Creating App.jsx''", THEN conjunct1, rule_format, OF h]
  have a: "\<exists>el. ToolInvocationBadge ''str_replace_editor'' ?args Result Undefined = Inr el
        \<and> \<not> has_class ''bg-emerald-500'' el \<and> has_class ''animate-spin'' el
        \<and> spans el = [Span ''text-neutral-600'' [lucide FilePlus],
                       Span ''text-neutral-700'' [Text ''Creating App.jsx'']]"
    using t [of Result Undefined] by simp
  have b: "\<exists>el. ToolInvocationBadge ''str_replace_editor'' ?args Result (Str ''Success'') = Inr el
        \<and> has_class ''bg-emerald-500'' el \<and> \<not> has_class ''animate-spin'' el
        \<and> spans el = [Span ''text-neutral-600'' [lucide FilePlus],
                       Span ''text-neutral-700'' [Text ''Creating App.jsx'']]"
    using t [of Result "Str ''Success''"] by simp
  from h a b show ?thesis by blast
qed

text \<open>
  C9 as stated fails: with \<^verbatim>\<open>args = {command: "create", path: 42}\<close>, state \<^verbatim>\<open>result\<close> and
  result \<^verbatim>\<open>"Success"\<close> the component throws and renders neither the dot nor the spinner.
\<close>

theorem ToolInvocationBadge_throws:
  "ToolInvocationBadge ''str_replace_editor'' (Obj [(''command'', Str ''create''), (''path'', Num 42)])
     Result (Str ''Success'') = Inl TypeError"
  by (simp add: ToolInvocationBadge_def getToolDisplayInfo_def fileNameOf_def)

section \<open>Properties of the custom fetch\<close>

declare show_nat.simps [simp del]

lemma show_nat_not_Nil: "show_nat n \<noteq> []"
  by (subst show_nat.simps) simp

lemma digit_inj:
  assumes "a < 10" and "b < 10" and "''0123456789'' ! a = ''0123456789'' ! b"
  shows "a = b"
proof -
  define D where "D = ''0123456789''"
  have "distinct D" "length D = 10" by (simp_all add: D_def)
  with assms show ?thesis using nth_eq_iff_index_eq [of D a b] by (simp add: D_def [symmetric])
qed

lemma show_nat_small: "n < 10 \<Longrightarrow> show_nat n = [''0123456789'' ! n]"
  by (subst show_nat.simps) simp

lemma show_nat_large: "\<not> n < 10 \<Longrightarrow> show_nat n = show_nat (n div 10) @ [''0123456789'' ! (n mod 10)]"
  by (subst show_nat.simps) simp

lemma show_nat_inj: "show_nat n = show_nat m \<Longrightarrow> n = m"
proof (induction n arbitrary: m rule: show_nat.induct)
  case (1 n)
  define D where "D = ''0123456789''"
  have small: "show_nat k = [D ! k]" if "k < 10" for k
    using that unfolding D_def by (rule show_nat_small)
  have large: "show_nat k = show_nat (k div 10) @ [D ! (k mod 10)]" if "\<not> k < 10" for k
    using that unfolding D_def by (rule show_nat_large)
  have long: "length (show_nat k) \<noteq> 1" if "\<not> k < 10" for k
  proof -
    have "length (show_nat k) = length (show_nat (k div 10)) + 1"
      by (simp add: large [OF that])
    moreover have "length (show_nat (k div 10)) \<noteq> 0" using show_nat_not_Nil [of "k div 10"] by simp
    ultimately show ?thesis by simp
  qed
  have short: "length (show_nat k) = 1" if "k < 10" for k
    by (simp add: small [OF that])
  show ?case
  proof (cases "n < 10")
    case True
    show ?thesis
    proof (cases "m < 10")
      case m: True
      have "[D ! n] = [D ! m]" using "1.prems" small [OF True] small [OF m] by (simp only:)
      then have "D ! n = D ! m" by (simp only: list.inject)
      from digit_inj [OF True m this [unfolded D_def]] show ?thesis .
    next
      case m: False
      have "length (show_nat n) = length (show_nat m)" by (simp only: "1.prems")
      with short [OF True] long [OF m] show ?thesis by (simp only:)
    qed
  next
    case False
    show ?thesis
    proof (cases "m < 10")
      case m: True
      have "length (show_nat n) = length (show_nat m)" by (simp only: "1.prems")
      with short [OF m] long [OF False] show ?thesis by (simp only:)
    next
      case m: False
      have "show_nat (n div 10) @ [D ! (n mod 10)] = show_nat (m div 10) @ [D ! (m mod 10)]"
        using "1.prems" large [OF False] large [OF m] by (simp only:)
      then have e: "show_nat (n div 10) = show_nat (m div 10)" and d: "D ! (n mod 10) = D ! (m mod 10)"
        by (simp_all only: append1_eq_conv)
      from "1.IH" [OF False e] have "n div 10 = m div 10" .
      moreover have "n mod 10 < 10" "m mod 10 < 10" by simp_all
      from digit_inj [OF this d [unfolded D_def]] have "n mod 10 = m mod 10" .
      ultimately have "n div 10 * 10 + n mod 10 = m div 10 * 10 + m mod 10" by (simp only:)
      then show ?thesis by (simp only: div_mult_mod_eq)
    qed
  qed
qed

lemma show_nat_digits: "set (show_nat n) \<subseteq> set ''0123456789''"
proof (induction n rule: show_nat.induct)
  case (1 n)
  define D where "D = ''0123456789''"
  have l: "length D = 10" by (simp add: D_def)
  have d: "D ! k \<in> set D" if "k < 10" for k
    using that l by simp
  show ?case
  proof (cases "n < 10")
    case True
    then have "show_nat n = [D ! n]" by (simp add: show_nat_small D_def)
    with d [OF True] show ?thesis by (simp add: D_def)
  next
    case False
    then have "show_nat n = show_nat (n div 10) @ [D ! (n mod 10)]"
      by (simp add: show_nat_large D_def)
    moreover have "D ! (n mod 10) \<in> set D" by (rule d) simp
    moreover have "set (show_nat (n div 10)) \<subseteq> set D" using "1.IH" [OF False] by (simp add: D_def)
    ultimately show ?thesis by (simp add: D_def)
  qed
qed

lemma show_nat_not_key: "show_nat i \<noteq> ''files''" "show_nat i \<noteq> ''projectId''"
proof -
  have "CHR ''f'' \<notin> set (show_nat i)" "CHR ''p'' \<notin> set (show_nat i)"
    using show_nat_digits [of i] by auto
  then show "show_nat i \<noteq> ''files''" "show_nat i \<noteq> ''projectId''" by auto
qed

lemma index_lookup:
  assumes "i < length ys"
  shows "map_of (zip (map show_nat [0..<length ys]) ys) (show_nat i) = Some (ys ! i)"
proof -
  have "inj_on show_nat (set [0..<length ys])" by (auto simp: inj_on_def dest: show_nat_inj)
  then have d: "distinct (map show_nat [0..<length ys])" by (simp add: distinct_map)
  have "map_of (zip (map show_nat [0..<length ys]) ys) (map show_nat [0..<length ys] ! i) = Some (ys ! i)"
    by (rule map_of_zip_nth) (use assms d in simp_all)
  with assms show ?thesis by simp
qed

lemma index_lookup_none:
  assumes "\<forall>i<length ys. k \<noteq> show_nat i"
  shows "map_of (zip (map show_nat [0..<length ys]) ys) k = None"
proof -
  have "k \<notin> set (map show_nat [0..<length ys])" using assms by auto
  then show ?thesis by (simp add: map_of_zip_is_None)
qed

lemma enhanced_lookup:
  "map_of (AList.update ''projectId'' pv (AList.update ''files'' files kvs)) k =
     (if k = ''projectId'' then Some pv else if k = ''files'' then Some files else map_of kvs k)"
  by (simp add: update_conv')

lemma spread_string_lookup:
  assumes "i < length s"
  shows "map_of (spread (Str s)) (show_nat i) = Some (Str [s ! i])"
  using index_lookup [of i "map (\<lambda>c. Str [c]) s"] assms by simp

lemma spread_string_none:
  assumes "\<forall>i<length s. k \<noteq> show_nat i"
  shows "map_of (spread (Str s)) k = None"
  using index_lookup_none [of "map (\<lambda>c. Str [c]) s" k] assms by simp

text \<open>
  C10. When \<^verbatim>\<open>JSON.parse\<close> throws on the body no request is issued. Otherwise the one
  request issued goes to the same input, keeps the other init fields, and its body is the
  JSON text of one object. In that object \<^verbatim>\<open>files\<close> is the current snapshot and
  \<^verbatim>\<open>projectId\<close> is the current project id, whatever the caller's body held under these
  two keys, and every other property is the caller's: of a body that is an object each
  of its properties with its value and no further one; of an array or a string the
  elements under their indices and no further one; of any other value none.
\<close>

theorem customFetch_body:
  "(parse (body_text init) = None \<longrightarrow>
      customFetch parse stringify files projectId inp init = Inl SyntaxError)
   \<and> (\<forall>parsed. parse (body_text init) = Some parsed \<longrightarrow>
        customFetch parse stringify files projectId inp init =
          Inr \<lparr>input = inp, init_rest = map_option rest init,
               sent_body = stringify (enhancedBody parsed files projectId)\<rparr>
        \<and> (\<exists>sent. enhancedBody parsed files projectId = Obj sent
             \<and> map_of sent ''files'' = Some files
             \<and> map_of sent ''projectId'' = Some (case projectId of None \<Rightarrow> Undefined | Some p \<Rightarrow> Str p)
             \<and> (\<forall>kvs k. parsed = Obj kvs \<and> k \<noteq> ''files'' \<and> k \<noteq> ''projectId'' \<longrightarrow>
                    map_of sent k = map_of kvs k)
             \<and> (\<forall>xs i. parsed = Arr xs \<and> i < length xs \<longrightarrow> map_of sent (show_nat i) = Some (xs ! i))
             \<and> (\<forall>xs k. parsed = Arr xs \<and> k \<noteq> ''files'' \<and> k \<noteq> ''projectId''
                    \<and> (\<forall>i<length xs. k \<noteq> show_nat i) \<longrightarrow> map_of sent k = None)
             \<and> (\<forall>s i. parsed = Str s \<and> i < length s \<longrightarrow>
                    map_of sent (show_nat i) = Some (Str [s ! i]))
             \<and> (\<forall>s k. parsed = Str s \<and> k \<noteq> ''files'' \<and> k \<noteq> ''projectId''
                    \<and> (\<forall>i<length s. k \<noteq> show_nat i) \<longrightarrow> map_of sent k = None)
             \<and> (\<forall>k. (parsed = Undefined \<or> parsed = Null \<or> (\<exists>b. parsed = Bool b) \<or> (\<exists>n. parsed = Num n))
                    \<and> k \<noteq> ''files'' \<and> k \<noteq> ''projectId'' \<longrightarrow> map_of sent k = None)))"
proof (intro conjI allI impI)
  assume "parse (body_text init) = None"
  then show "customFetch parse stringify files projectId inp init = Inl SyntaxError"
    by (simp add: customFetch_def)
next
  fix parsed assume "parse (body_text init) = Some parsed"
  then show "customFetch parse stringify files projectId inp init =
          Inr \<lparr>input = inp, init_rest = map_option rest init,
               sent_body = stringify (enhancedBody parsed files projectId)\<rparr>"
    by (simp add: customFetch_def)
next
  fix parsed
  define pv where "pv = (case projectId of None \<Rightarrow> Undefined | Some p \<Rightarrow> Str p)"
  define sent where "sent = AList.update ''projectId'' pv (AList.update ''files'' files (spread parsed))"
  have m: "map_of sent k =
      (if k = ''projectId'' then Some pv else if k = ''files'' then Some files
       else map_of (spread parsed) k)" for k
    unfolding sent_def by (rule enhanced_lookup)
  have ix: "map_of sent (show_nat i) = map_of (spread parsed) (show_nat i)" for i
    using show_nat_not_key [of i] by (simp only: m if_False)
  have e: "enhancedBody parsed files projectId = Obj sent"
    by (simp add: enhancedBody_def sent_def pv_def)
  have "map_of sent ''files'' = Some files \<and> map_of sent ''projectId'' = Some pv
      \<and> (\<forall>kvs k. parsed = Obj kvs \<and> k \<noteq> ''files'' \<and> k \<noteq> ''projectId'' \<longrightarrow>
                    map_of sent k = map_of kvs k)
      \<and> (\<forall>xs i. parsed = Arr xs \<and> i < length xs \<longrightarrow> map_of sent (show_nat i) = Some (xs ! i))
      \<and> (\<forall>xs k. parsed = Arr xs \<and> k \<noteq> ''files'' \<and> k \<noteq> ''projectId''
                    \<and> (\<forall>i<length xs. k \<noteq> show_nat i) \<longrightarrow> map_of sent k = None)
      \<and> (\<forall>s i. parsed = Str s \<and> i < length s \<longrightarrow>
                    map_of sent (show_nat i) = Some (Str [s ! i]))
      \<and> (\<forall>s k. parsed = Str s \<and> k \<noteq> ''files'' \<and> k \<noteq> ''projectId''
                    \<and> (\<forall>i<length s. k \<noteq> show_nat i) \<longrightarrow> map_of sent k = None)
      \<and> (\<forall>k. (parsed = Undefined \<or> parsed = Null \<or> (\<exists>b. parsed = Bool b) \<or> (\<exists>n. parsed = Num n))
                    \<and> k \<noteq> ''files'' \<and> k \<noteq> ''projectId'' \<longrightarrow> map_of sent k = None)"
  proof (intro conjI allI impI)
    show "map_of sent ''files'' = Some files" by (simp add: m)
    show "map_of sent ''projectId'' = Some pv" by (simp add: m)
  next
    fix kvs k assume "parsed = Obj kvs \<and> k \<noteq> ''files'' \<and> k \<noteq> ''projectId''"
    then show "map_of sent k = map_of kvs k" by (simp add: m)
  next
    fix xs i assume "parsed = Arr xs \<and> i < length xs"
    then show "map_of sent (show_nat i) = Some (xs ! i)"
      using index_lookup [of i xs] by (simp add: ix)
  next
    fix xs k
    assume "parsed = Arr xs \<and> k \<noteq> ''files'' \<and> k \<noteq> ''projectId'' \<and> (\<forall>i<length xs. k \<noteq> show_nat i)"
    then show "map_of sent k = None" using index_lookup_none [of xs k] by (simp add: m)
  next
    fix s i assume "parsed = Str s \<and> i < length s"
    then have "parsed = Str s" and "map_of (spread (Str s)) (show_nat i) = Some (Str [s ! i])"
      using spread_string_lookup [of i s] by blast+
    then show "map_of sent (show_nat i) = Some (Str [s ! i])" by (simp only: ix)
  next
    fix s k
    assume "parsed = Str s \<and> k \<noteq> ''files'' \<and> k \<noteq> ''projectId'' \<and> (\<forall>i<length s. k \<noteq> show_nat i)"
    then have "parsed = Str s" "k \<noteq> ''files''" "k \<noteq> ''projectId''"
      and "map_of (spread (Str s)) k = None"
      using spread_string_none [of s k] by blast+
    then show "map_of sent k = None" by (simp add: m)
  next
    fix k
    assume "(parsed = Undefined \<or> parsed = Null \<or> (\<exists>b. parsed = Bool b) \<or> (\<exists>n. parsed = Num n))
                    \<and> k \<noteq> ''files'' \<and> k \<noteq> ''projectId''"
    then show "map_of sent k = None" by (auto simp: m)
  qed
  with e show "\<exists>sent. enhancedBody parsed files projectId = Obj sent
             \<and> map_of sent ''files'' = Some files
             \<and> map_of sent ''projectId'' = Some (case projectId of None \<Rightarrow> Undefined | Some p \<Rightarrow> Str p)
             \<and> (\<forall>kvs k. parsed = Obj kvs \<and> k \<noteq> ''files'' \<and> k \<noteq> ''projectId'' \<longrightarrow>
                    map_of sent k = map_of kvs k)
             \<and> (\<forall>xs i. parsed = Arr xs \<and> i < length xs \<longrightarrow> map_of sent (show_nat i) = Some (xs ! i))
             \<and> (\<forall>xs k. parsed = Arr xs \<and> k \<noteq> ''files'' \<and> k \<noteq> ''projectId''
                    \<and> (\<forall>i<length xs. k \<noteq> show_nat i) \<longrightarrow> map_of sent k = None)
             \<and> (\<forall>s i. parsed = Str s \<and> i < length s \<longrightarrow>
                    map_of sent (show_nat i) = Some (Str [s ! i]))
             \<and> (\<forall>s k. parsed = Str s \<and> k \<noteq> ''files'' \<and> k \<noteq> ''projectId''
                    \<and> (\<forall>i<length s. k \<noteq> show_nat i) \<longrightarrow> map_of sent k = None)
             \<and> (\<forall>k. (parsed = Undefined \<or> parsed = Null \<or> (\<exists>b. parsed = Bool b) \<or> (\<exists>n. parsed = Num n))
                    \<and> k \<noteq> ''files'' \<and> k \<noteq> ''projectId'' \<longrightarrow> map_of sent k = None)"
    unfolding pv_def by blast
qed

text \<open>
  The theorem at a body that already holds a \<^verbatim>\<open>files\<close> key: the snapshot replaces it, the
  \<^verbatim>\<open>id\<close> key is carried over. The first function stands for \<^verbatim>\<open>JSON.parse\<close> on this one
  body; the second gives the JSON text of the one object expected and tells any other
  object apart.
\<close>

theorem customFetch_body_witness:
  "customFetch
     (\<lambda>s. if s = ''{\"files\":1,\"id\":\"c1\"}''
          then Some (Obj [(''files'', Num 1), (''id'', Str ''c1'')]) else None)
     (\<lambda>v. if v = Obj [(''files'', Obj [(''/'', Obj [(''type'', Str ''directory'')])]),
                       (''id'', Str ''c1''), (''projectId'', Str ''p1'')]
          then ''{\"files\":{\"/\":{\"type\":\"directory\"}},\"id\":\"c1\",\"projectId\":\"p1\"}''
          else ''another object'')
     (Obj [(''/'', Obj [(''type'', Str ''directory'')])]) (Some ''p1'') ''/api/chat''
     (Some \<lparr>body = Some ''{\"files\":1,\"id\":\"c1\"}'', rest = ''POST''\<rparr>)
   = Inr \<lparr>input = ''/api/chat'', init_rest = Some ''POST'',
          sent_body = ''{\"files\":{\"/\":{\"type\":\"directory\"}},\"id\":\"c1\",\"projectId\":\"p1\"}''\<rparr>"
proof -
  let ?parse = "\<lambda>s. if s = ''{\"files\":1,\"id\":\"c1\"}''
                    then Some (Obj [(''files'', Num 1), (''id'', Str ''c1'')]) else None"
  let ?stringify = "\<lambda>v. if v = Obj [(''files'', Obj [(''/'', Obj [(''type'', Str ''directory'')])]),
                       (''id'', Str ''c1''), (''projectId'', Str ''p1'')]
          then ''{\"files\":{\"/\":{\"type\":\"directory\"}},\"id\":\"c1\",\"projectId\":\"p1\"}''
          else ''another object''"
  let ?files = "Obj [(''/'', Obj [(''type'', Str ''directory'')])]"
  let ?init = "Some \<lparr>body = Some ''{\"files\":1,\"id\":\"c1\"}'', rest = ''POST''\<rparr>"
  have p: "?parse (body_text ?init) = Some (Obj [(''files'', Num 1), (''id'', Str ''c1'')])"
    by (simp add: body_text_def)
  note t = customFetch_body [of ?parse ?init ?stringify ?files "Some ''p1''" "''/api/chat''",
      THEN conjunct2, rule_format, OF p, THEN conjunct1]
  have e: "enhancedBody (Obj [(''files'', Num 1), (''id'', Str ''c1'')]) ?files (Some ''p1'')
      = Obj [(''files'', ?files), (''id'', Str ''c1''), (''projectId'', Str ''p1'')]"
    by (simp add: enhancedBody_def)
  from t show ?thesis by (simp only: e) simp
qed

section \<open>Properties of the VirtualFileSystem model\<close>

subsection \<open>Paths\<close>

lemma split_on_not_Nil [simp]: "split_on sep s \<noteq> []"
  by (induction s) (auto split: list.splits)

lemma split_on_sep: "split_on sep (sep # cs) = [] # split_on sep cs"
  by simp

lemma split_on_other:
  "c \<noteq> sep \<Longrightarrow> split_on sep cs = x # xs \<Longrightarrow> split_on sep (c # cs) = (c # x) # xs"
  by simp

lemma split_on_snoc: "split_on sep (t @ [sep]) = split_on sep t @ [[]]"
  by (induction t) (auto split: list.splits)

lemma split_on_plain: "sep \<notin> set x \<Longrightarrow> split_on sep x = [x]"
  by (induction x) auto

lemma split_on_append_sep: "sep \<notin> set x \<Longrightarrow> split_on sep (x @ sep # r) = x # split_on sep r"
  by (induction x) auto

lemma segments_Nil [simp]: "segments [] = []"
  by (simp add: segments_def)

lemma segments_slash [simp]: "segments (CHR ''/'' # cs) = segments cs"
  by (simp add: segments_def)

lemma collapse_hd: "\<exists>t. collapse (a # r) = a # t"
  by (induction "a # r" arbitrary: a r rule: collapse.induct) auto

lemma collapse_not_Nil [simp]: "collapse (a # r) \<noteq> []"
  using collapse_hd [of a r] by auto

lemma split_collapse:
  "\<exists>x xs ys. split_on CHR ''/'' s = x # xs \<and> split_on CHR ''/'' (collapse s) = x # ys
     \<and> filter (\<lambda>x. x \<noteq> []) ys = filter (\<lambda>x. x \<noteq> []) xs"
proof (induction s rule: collapse.induct)
  case (3 a b r)
  then obtain x xs ys where
    s: "split_on CHR ''/'' (b # r) = x # xs" and c: "split_on CHR ''/'' (collapse (b # r)) = x # ys"
    and f: "filter (\<lambda>x. x \<noteq> []) ys = filter (\<lambda>x. x \<noteq> []) xs"
    by blast
  show ?case
  proof (cases "a = CHR ''/''")
    case True
    show ?thesis
    proof (cases "b = CHR ''/''")
      case True
      with s have x: "x = []" by simp
      have "split_on CHR ''/'' (a # b # r) = [] # x # xs"
        using \<open>a = CHR ''/''\<close> s by (simp only: split_on_sep)
      moreover have "split_on CHR ''/'' (collapse (a # b # r)) = [] # ys"
        using \<open>a = CHR ''/''\<close> True c x by simp
      ultimately show ?thesis using f x by simp
    next
      case False
      have "split_on CHR ''/'' (a # b # r) = [] # x # xs"
        using \<open>a = CHR ''/''\<close> s by (simp only: split_on_sep)
      moreover have "split_on CHR ''/'' (collapse (a # b # r)) = [] # x # ys"
        using \<open>a = CHR ''/''\<close> False c by (simp del: split_on.simps add: split_on_sep)
      ultimately show ?thesis using f by simp
    qed
  next
    case False
    have "split_on CHR ''/'' (a # b # r) = (a # x) # xs"
      using False s by (rule split_on_other)
    moreover have "split_on CHR ''/'' (collapse (a # b # r)) = (a # x) # ys"
      using False c by (simp del: split_on.simps add: split_on_other)
    ultimately show ?thesis using f by simp
  qed
next
  case 1
  then show ?case by simp
next
  case (2 v)
  then show ?case by simp
qed

lemma segments_collapse [simp]: "segments (collapse s) = segments s"
  using split_collapse [of s] by (auto simp: segments_def)

lemma segments_snoc_slash: "segments (t @ ''/'') = segments t"
  by (simp add: segments_def split_on_snoc)

lemma segments_drop_slash [simp]: "segments (drop_slash s) = segments s"
proof (cases "s \<noteq> [] \<and> last s = CHR ''/''")
  case True
  then have "s = butlast s @ ''/''" by (metis append_butlast_last_id)
  then have "segments s = segments (butlast s)" by (metis segments_snoc_slash)
  with True show ?thesis by (simp add: drop_slash_def)
next
  case False
  then show ?thesis by (auto simp: drop_slash_def)
qed

lemma segments_strip_trailing [simp]: "segments (strip_trailing s) = segments s"
  by (simp add: strip_trailing_def)

lemma segments_ensure_leading [simp]: "segments (ensure_leading s) = segments s"
  by (cases s) (simp_all add: ensure_leading_def)

lemma segments_normalizePath [simp]: "segments (normalizePath s) = segments s"
  by (simp add: normalizePath_def)

lemma split_on_render_tail:
  "list_all valid_segment p \<Longrightarrow>
     split_on CHR ''/'' (concat (map (\<lambda>x. CHR ''/'' # x) p)) = [] # p \<or> p = []"
proof (induction p)
  case Nil
  then show ?case by simp
next
  case (Cons x p)
  then have x: "CHR ''/'' \<notin> set x" and p: "list_all valid_segment p"
    by (simp_all add: valid_segment_def [of x])
  show ?case
  proof (cases "p = []")
    case True
    with x show ?thesis by (simp add: split_on_plain)
  next
    case False
    with Cons.IH p have "split_on CHR ''/'' (concat (map (\<lambda>x. CHR ''/'' # x) p)) = [] # p" by simp
    moreover obtain y q where "p = y # q" using False by (cases p) auto
    ultimately show ?thesis using x by (simp add: split_on_append_sep)
  qed
qed

lemma segments_render: "list_all valid_segment p \<Longrightarrow> segments (render p) = p"
proof (cases "p = []")
  case True
  then show ?thesis by (simp add: render_def)
next
  case False
  assume v: "list_all valid_segment p"
  with False split_on_render_tail [of p]
  have "split_on CHR ''/'' (render p) = [] # p" by (simp add: render_def)
  moreover have "filter (\<lambda>x. x \<noteq> []) p = p"
    using v by (induction p) (auto simp: valid_segment_def)
  ultimately show ?thesis by (simp add: segments_def)
qed

lemma joined_Nil [simp]: "joined [] = []"
  by (simp add: joined_def)

lemma joined_slash [simp]: "joined (CHR ''/'' # t) = joined t"
  by (simp add: joined_def)








subsection \<open>Creating directories\<close>

lemma between_step:
  "(strict_prefix q r \<and> prefix r (q @ x # xs)) \<longleftrightarrow>
     (r = q @ [x] \<or> (strict_prefix (q @ [x]) r \<and> prefix r ((q @ [x]) @ xs)))"
proof
  assume a: "strict_prefix q r \<and> prefix r (q @ x # xs)"
  then obtain zs where r: "r = q @ zs" "zs \<noteq> []" by (auto simp: strict_prefix_def prefix_def)
  with a have "prefix zs (x # xs)" by simp
  with r obtain zs' where "zs = x # zs'" "prefix zs' xs" by (cases zs) auto
  with r show "r = q @ [x] \<or> (strict_prefix (q @ [x]) r \<and> prefix r ((q @ [x]) @ xs))"
    by (cases "zs' = []") (auto simp: strict_prefix_def)
next
  assume "r = q @ [x] \<or> (strict_prefix (q @ [x]) r \<and> prefix r ((q @ [x]) @ xs))"
  then show "strict_prefix q r \<and> prefix r (q @ x # xs)"
    by (auto simp: strict_prefix_def prefix_def)
qed

lemma map_of_snoc:
  "map_of (T @ [(k, v)]) r = (if map_of T r = None \<and> r = k then Some v else map_of T r)"
  by (auto simp: map_add_def split: option.splits)

lemma mkdirp_map:
  "mkdirp T q xs = Inr T' \<Longrightarrow>
     map_of T' = (\<lambda>r. if map_of T r = None \<and> strict_prefix q r \<and> prefix r (q @ xs)
                       then Some Directory else map_of T r)"
proof (induction xs arbitrary: T q)
  case Nil
  then show ?case by (auto simp: fun_eq_iff)
next
  case (Cons x xs)
  show ?case
  proof (cases "map_of T (q @ [x])")
    case None
    with Cons.prems have "mkdirp (T @ [(q @ [x], Directory)]) (q @ [x]) xs = Inr T'" by simp
    from Cons.IH [OF this] None show ?thesis
      by (auto simp del: map_of_append simp: fun_eq_iff map_of_snoc between_step [of q _ x xs])
  next
    case (Some n)
    with Cons.prems have d: "n = Directory" and "mkdirp T (q @ [x]) xs = Inr T'"
      by (cases n; simp)+
    from Cons.IH [OF this(2)] Some show ?thesis
      by (auto simp: fun_eq_iff between_step [of q _ x xs])
  qed
qed


lemma mkdirp_distinct: "mkdirp T q xs = Inr T' \<Longrightarrow> distinct (map fst T) \<Longrightarrow> distinct (map fst T')"
proof (induction xs arbitrary: T q)
  case Nil
  then show ?case by simp
next
  case (Cons x xs)
  show ?case
  proof (cases "map_of T (q @ [x])")
    case None
    then have "q @ [x] \<notin> fst ` set T" by (simp add: map_of_eq_None_iff)
    with Cons.prems have "distinct (map fst (T @ [(q @ [x], Directory)]))" by simp
    moreover from None Cons.prems have "mkdirp (T @ [(q @ [x], Directory)]) (q @ [x]) xs = Inr T'" by simp
    ultimately show ?thesis by (rule Cons.IH [rotated])
  next
    case (Some n)
    with Cons.prems have "mkdirp T (q @ [x]) xs = Inr T'" by (cases n) simp_all
    then show ?thesis using Cons.prems(2) by (rule Cons.IH)
  qed
qed

lemma mkdirp_ok:
  "(\<forall>r c t. strict_prefix q r \<and> prefix r (q @ xs) \<longrightarrow> map_of T r \<noteq> Some (File c t))
     \<Longrightarrow> \<exists>T'. mkdirp T q xs = Inr T'"
proof (induction xs arbitrary: T q)
  case Nil
  then show ?case by simp
next
  case (Cons x xs)
  have here: "\<forall>c t. map_of T (q @ [x]) \<noteq> Some (File c t)"
    using Cons.prems between_step [of q "q @ [x]" x xs] by blast
  show ?case
  proof (cases "map_of T (q @ [x])")
    case None
    have "\<forall>r c t. strict_prefix (q @ [x]) r \<and> prefix r ((q @ [x]) @ xs)
            \<longrightarrow> map_of (T @ [(q @ [x], Directory)]) r \<noteq> Some (File c t)"
      using Cons.prems None
      by (auto simp del: map_of_append simp: map_of_snoc between_step [of q _ x xs] split: if_splits)
    from Cons.IH [OF this] None show ?thesis by simp
  next
    case (Some n)
    with here have n: "n = Directory" by (cases n) auto
    have "\<forall>r c t. strict_prefix (q @ [x]) r \<and> prefix r ((q @ [x]) @ xs)
            \<longrightarrow> map_of T r \<noteq> Some (File c t)"
      using Cons.prems by (auto simp: between_step [of q _ x xs])
    from Cons.IH [OF this] Some n show ?thesis by simp
  qed
qed

lemma mkdirp_same:
  "(\<forall>r. strict_prefix q r \<and> prefix r (q @ xs) \<longrightarrow> map_of T r = Some Directory)
     \<Longrightarrow> mkdirp T q xs = Inr T"
proof (induction xs arbitrary: q)
  case Nil
  then show ?case by simp
next
  case (Cons x xs)
  have "map_of T (q @ [x]) = Some Directory"
    using Cons.prems between_step [of q "q @ [x]" x xs] by blast
  moreover have "mkdirp T (q @ [x]) xs = Inr T"
    by (rule Cons.IH) (use Cons.prems in \<open>auto simp: between_step [of q _ x xs]\<close>)
  ultimately show ?case by simp
qed





lemma deserialize_failed: "deserialize now T S = (Inl e, T') \<Longrightarrow> T' = T"
  by (auto simp: deserialize_def split: sum.splits if_splits)

subsection \<open>The invariants of the tree\<close>

lemma wf_tree_iff:
  "wf_tree T \<longleftrightarrow>
     distinct (map fst T) \<and> map_of T [] = Some Directory
     \<and> (\<forall>p n. map_of T p = Some n \<longrightarrow>
           list_all valid_segment p \<and> (p \<noteq> [] \<longrightarrow> map_of T (butlast p) = Some Directory))"
proof -
  have "distinct (map fst T) \<Longrightarrow> (map_of T p = Some n) = ((p, n) \<in> set T)" for p n
    by simp
  then show ?thesis
    unfolding wf_tree_def list_all_iff by (cases "distinct (map fst T)") fastforce+
qed

lemma wf_ancestors:
  assumes "wf_tree T"
  shows "map_of T p = Some n \<Longrightarrow> strict_prefix r p \<Longrightarrow> map_of T r = Some Directory"
proof (induction p arbitrary: n rule: rev_induct)
  case Nil
  then show ?case by simp
next
  case (snoc x ps)
  from assms snoc.prems(1) have d: "map_of T ps = Some Directory"
    unfolding wf_tree_iff by (metis butlast_snoc snoc_eq_iff_butlast)
  from snoc.prems(2) have "prefix r ps" by (auto simp: strict_prefix_def)
  then consider "r = ps" | "strict_prefix r ps" by (auto simp: strict_prefix_def)
  then show ?case using d snoc.IH by cases auto
qed

lemma wf_valid: "wf_tree T \<Longrightarrow> map_of T p = Some n \<Longrightarrow> list_all valid_segment p"
  unfolding wf_tree_iff by blast

lemma createDirectory_step:
  assumes wf: "wf_tree T" and p: "map_of T p = Some Directory" and U: "dirs_within T U"
  shows "\<exists>U'. createDirectory U (render p) = (Inr (), U') \<and> dirs_within T U'
           \<and> map_of U' p = Some Directory
           \<and> (\<forall>q n. map_of U q = Some n \<longrightarrow> map_of U' q = Some n)"
proof -
  have seg: "segments (normalizePath (render p)) = p"
    using wf_valid [OF wf p] by (simp add: segments_render)
  have "\<forall>r c t. strict_prefix [] r \<and> prefix r ([] @ p) \<longrightarrow> map_of U r \<noteq> Some (File c t)"
    using U unfolding dirs_within_def by (metis node.distinct(1))
  then obtain U' where m: "mkdirp U [] p = Inr U'" using mkdirp_ok by blast
  note mp = mkdirp_map [OF m]
  have anc: "map_of T r = Some Directory" if "prefix r p" for r
    using that p wf_ancestors [OF wf p] by (auto simp: strict_prefix_def)
  have d: "distinct (map fst U')" using mkdirp_distinct [OF m] U by (simp add: dirs_within_def)
  have root: "map_of U' [] = Some Directory" using U by (simp add: mp dirs_within_def)
  have within: "\<forall>q n. map_of U' q = Some n \<longrightarrow> n = Directory \<and> map_of T q = Some Directory"
    using U anc unfolding dirs_within_def by (auto simp: mp split: if_splits)
  have here: "map_of U' p = Some Directory"
  proof (cases "p = []")
    case True
    with root show ?thesis by simp
  next
    case False
    then show ?thesis using U unfolding dirs_within_def
      by (cases "map_of U p") (auto simp: mp strict_prefix_def)
  qed
  have keep: "\<forall>q n. map_of U q = Some n \<longrightarrow> map_of U' q = Some n" by (simp add: mp)
  show ?thesis
    using m seg d root within here keep by (simp add: createDirectory_def dirs_within_def)
qed

lemma create_directories_fold:
  assumes wf: "wf_tree T"
  shows "dirs_within T U \<Longrightarrow> \<forall>d\<in>set ds. \<exists>p. d = render p \<and> map_of T p = Some Directory \<Longrightarrow>
           \<exists>U'. create_directories U ds = Inr U' \<and> dirs_within T U'
             \<and> (\<forall>p. render p \<in> set ds \<and> map_of T p = Some Directory \<longrightarrow> map_of U' p = Some Directory)
             \<and> (\<forall>q n. map_of U q = Some n \<longrightarrow> map_of U' q = Some n)"
proof (induction ds arbitrary: U)
  case Nil
  then show ?case by simp
next
  case (Cons d ds)
  then obtain p where p: "d = render p" "map_of T p = Some Directory" by auto
  from createDirectory_step [OF wf p(2) Cons.prems(1)] obtain U1 where
    s: "createDirectory U (render p) = (Inr (), U1)" and w: "dirs_within T U1"
    and h: "map_of U1 p = Some Directory"
    and k: "\<forall>q n. map_of U q = Some n \<longrightarrow> map_of U1 q = Some n" by blast
  from Cons.IH [OF w] Cons.prems(2) obtain U' where
    f: "create_directories U1 ds = Inr U'" and w': "dirs_within T U'"
    and a: "\<forall>p. render p \<in> set ds \<and> map_of T p = Some Directory \<longrightarrow> map_of U' p = Some Directory"
    and k': "\<forall>q n. map_of U1 q = Some n \<longrightarrow> map_of U' q = Some n" by auto
  have inj: "p' = p" if "render p' = render p" "map_of T p' = Some Directory" for p'
    using that wf_valid [OF wf] p(2) by (metis segments_render)
  have "\<forall>p'. render p' \<in> set (d # ds) \<and> map_of T p' = Some Directory \<longrightarrow> map_of U' p' = Some Directory"
    using a h k' inj p(1) by auto
  moreover have "\<forall>q n. map_of U q = Some n \<longrightarrow> map_of U' q = Some n" using k k' by blast
  ultimately show ?case using s f w' p(1) by auto
qed

lemma wf_emptyTree: "wf_tree emptyTree"
  by (simp add: wf_tree_def emptyTree_def)

lemma split_on_no_sep: "x \<in> set (split_on sep s) \<Longrightarrow> sep \<notin> set x"
proof (induction s arbitrary: x)
  case Nil
  then show ?case by simp
next
  case (Cons c s)
  obtain y ys where sp: "split_on sep s = y # ys" by (cases "split_on sep s") simp_all
  with Cons.IH have "sep \<notin> set y" "\<forall>z\<in>set ys. sep \<notin> set z" by auto
  with Cons.prems sp show ?case by (auto split: if_splits)
qed

lemma segments_valid: "list_all valid_segment (segments s)"
  by (auto simp: segments_def list_all_iff valid_segment_def dest: split_on_no_sep)

lemma mkdirp_wf:
  "wf_tree T \<Longrightarrow> list_all valid_segment (q @ xs) \<Longrightarrow> map_of T q = Some Directory
     \<Longrightarrow> mkdirp T q xs = Inr T' \<Longrightarrow> wf_tree T' \<and> map_of T' (q @ xs) = Some Directory"
proof (induction xs arbitrary: T q)
  case Nil
  then show ?case by simp
next
  case (Cons x xs)
  have v: "list_all valid_segment ((q @ [x]) @ xs)" using Cons.prems(2) by simp
  show ?case
  proof (cases "map_of T (q @ [x])")
    case None
    define T1 where "T1 = T @ [(q @ [x], Directory)]"
    have m1: "map_of T1 r = (if r = q @ [x] then Some Directory else map_of T r)" for r
      using None unfolding T1_def by (simp del: map_of_append add: map_of_snoc)
    have "q @ [x] \<notin> fst ` set T" using None by (simp add: map_of_eq_None_iff)
    then have d1: "distinct (map fst T1)" using Cons.prems(1) by (simp add: wf_tree_iff T1_def)
    have w1: "wf_tree T1"
      unfolding wf_tree_iff
    proof (intro conjI allI impI)
      show "distinct (map fst T1)" by (rule d1)
    next
      show "map_of T1 [] = Some Directory" using Cons.prems(1) by (simp add: m1 wf_tree_iff)
    next
      fix p n assume "map_of T1 p = Some n"
      then show "list_all valid_segment p"
        using Cons.prems(1,2) wf_valid by (auto simp: m1 split: if_splits)
    next
      fix p n assume a: "map_of T1 p = Some n" "p \<noteq> []"
      show "map_of T1 (butlast p) = Some Directory"
      proof (cases "p = q @ [x]")
        case True
        then show ?thesis using Cons.prems(3) by (simp add: m1 butlast_append)
      next
        case False
        with a have "map_of T p = Some n" by (simp add: m1)
        with a(2) Cons.prems(1) have b: "map_of T (butlast p) = Some Directory"
          unfolding wf_tree_iff by blast
        with None have "butlast p \<noteq> q @ [x]" by auto
        with b show ?thesis by (simp add: m1)
      qed
    qed
    have "mkdirp T1 (q @ [x]) xs = Inr T'" using None Cons.prems(4) by (simp add: T1_def)
    from Cons.IH [OF w1 v _ this] show ?thesis by (simp add: m1)
  next
    case (Some n)
    with Cons.prems(4) have n: "n = Directory" and "mkdirp T (q @ [x]) xs = Inr T'"
      by (cases n; simp)+
    from Cons.IH [OF Cons.prems(1) v _ this(2)] Some n show ?thesis by simp
  qed
qed

lemma createDirectory_wf:
  assumes "wf_tree T" and "createDirectory T s = (r, T')"
  shows "wf_tree T'"
proof (cases "mkdirp T [] (segments (normalizePath s))")
  case (Inl e)
  with assms show ?thesis by (simp add: createDirectory_def)
next
  case (Inr U)
  have "wf_tree U"
    using mkdirp_wf [OF assms(1) _ _ Inr] assms(1) segments_valid [of "normalizePath s"]
    by (simp add: wf_tree_iff)
  with Inr assms(2) show ?thesis by (simp add: createDirectory_def)
qed

lemma list_all_butlast: "list_all P xs \<Longrightarrow> list_all P (butlast xs)"
  by (auto simp: list_all_iff dest: in_set_butlastD)

lemma createFile_wf:
  assumes wf: "wf_tree T" and cf: "createFile now T s c = (r, T')"
  shows "wf_tree T'"
proof -
  let ?p = "segments (normalizePath s)"
  show ?thesis
  proof (cases "mkdirp T [] (butlast ?p)")
    case (Inl e)
    with assms show ?thesis by (auto simp: createFile_def Let_def)
  next
    case (Inr U)
    have vp: "list_all valid_segment ?p" by (rule segments_valid)
    have "list_all valid_segment ([] @ butlast ?p)" using vp by (simp add: list_all_butlast)
    from mkdirp_wf [OF wf this _ Inr] wf
    have wU: "wf_tree U" and par: "map_of U (butlast ?p) = Some Directory"
      by (simp_all add: wf_tree_iff)
    show ?thesis
    proof (cases "map_of U ?p = Some Directory")
      case True
      with Inr cf wf show ?thesis by (auto simp: createFile_def Let_def)
    next
      case False
      then have T': "T' = AList.update ?p (File c now) U"
        using Inr cf by (auto simp: createFile_def Let_def split: option.splits node.splits)
      have pne: "?p \<noteq> []" using False wU by (auto simp: wf_tree_iff)
      have m: "map_of T' = (map_of U)(?p \<mapsto> File c now)" unfolding T' by (rule update_conv')
      show ?thesis
        unfolding wf_tree_iff
      proof (intro conjI allI impI)
        show "distinct (map fst T')" using wU by (simp add: T' distinct_update wf_tree_iff)
      next
        show "map_of T' [] = Some Directory" using wU pne by (simp add: m wf_tree_iff)
      next
        fix q n assume "map_of T' q = Some n"
        then show "list_all valid_segment q"
          using vp wU wf_valid by (auto simp: m split: if_splits)
      next
        fix q n assume a: "map_of T' q = Some n" "q \<noteq> []"
        show "map_of T' (butlast q) = Some Directory"
        proof (cases "q = ?p")
          case True
          moreover have "butlast ?p \<noteq> ?p" using pne by (metis append_butlast_last_id append_self_conv not_Cons_self2)
          ultimately show ?thesis using par by (simp add: m)
        next
          case q: False
          with a have "map_of U q = Some n" by (simp add: m)
          with a(2) wU have b: "map_of U (butlast q) = Some Directory"
            unfolding wf_tree_iff by blast
          with False have "butlast q \<noteq> ?p" by auto
          with b show ?thesis by (simp add: m)
        qed
      qed
    qed
  qed
qed

lemma create_directories_wf:
  "wf_tree T \<Longrightarrow> create_directories T ds = Inr T' \<Longrightarrow> wf_tree T'"
proof (induction ds arbitrary: T)
  case Nil
  then show ?case by simp
next
  case (Cons d ds)
  obtain r U where c: "createDirectory T d = (r, U)" by (cases "createDirectory T d")
  with Cons.prems(2) have "create_directories U ds = Inr T'" by (cases r) simp_all
  moreover have "wf_tree U" using Cons.prems(1) c by (rule createDirectory_wf)
  ultimately show ?case using Cons.IH by blast
qed

lemma create_files_wf:
  "wf_tree T \<Longrightarrow> create_files now T fs = Inr T' \<Longrightarrow> wf_tree T'"
proof (induction fs arbitrary: T)
  case Nil
  then show ?case by simp
next
  case (Cons f fs)
  obtain k c where f: "f = (k, c)" by (cases f)
  obtain r U where c: "createFile now T k c = (r, U)" by (cases "createFile now T k c")
  with Cons.prems(2) f have "create_files now U fs = Inr T'" by (cases r) simp_all
  moreover have "wf_tree U" using Cons.prems(1) c by (rule createFile_wf)
  ultimately show ?case using Cons.IH by blast
qed

lemma deserialize_wf:
  assumes "wf_tree T" and "deserialize now T S = (r, T')"
  shows "wf_tree T'"
proof (cases r)
  case (Inl e)
  with assms show ?thesis using deserialize_failed by blast
next
  case (Inr u)
  with assms(2) obtain D where
    "create_directories emptyTree
       (sort_key (\<lambda>k. length (segments (normalizePath k))) (directories_of S)) = Inr D"
    "create_files now D (files_of S) = Inr T'"
    by (auto simp: deserialize_def split: if_splits sum.splits)
  then show ?thesis using wf_emptyTree create_directories_wf create_files_wf by blast
qed

lemma map_of_filter_key:
  "map_of (filter (\<lambda>(k, v). P k) xs) k = (if P k then map_of xs k else None)"
  by (induction xs) auto


lemma deleteNode_failed: "deleteNode T s = (Inl e, T') \<Longrightarrow> T' = T"
  by (auto simp: deleteNode_def Let_def split: option.splits if_splits)

lemma updateFile_wf:
  assumes wf: "wf_tree T" and u: "updateFile now T s c = (r, T')"
  shows "wf_tree T'"
proof -
  let ?p = "segments (normalizePath s)"
  show ?thesis
  proof (cases "\<exists>c0 t0. map_of T ?p = Some (File c0 t0)")
    case False
    with u have "T' = T" by (auto simp: updateFile_def Let_def split: option.splits node.splits)
    with wf show ?thesis by simp
  next
    case True
    then obtain c0 t0 where f: "map_of T ?p = Some (File c0 t0)" by blast
    with u have T': "T' = AList.update ?p (File c now) T" by (simp add: updateFile_def Let_def)
    have m: "map_of T' = (map_of T)(?p \<mapsto> File c now)" unfolding T' by (rule update_conv')
    have pne: "?p \<noteq> []" using f wf by (auto simp: wf_tree_iff)
    show ?thesis
      unfolding wf_tree_iff
    proof (intro conjI allI impI)
      show "distinct (map fst T')" using wf by (simp add: T' distinct_update wf_tree_iff)
    next
      show "map_of T' [] = Some Directory" using wf pne by (simp add: m wf_tree_iff)
    next
      fix q n assume "map_of T' q = Some n"
      then show "list_all valid_segment q"
        using wf wf_valid f by (auto simp: m split: if_splits)
    next
      fix q n assume a: "map_of T' q = Some n" "q \<noteq> []"
      then have "\<exists>n'. map_of T q = Some n'" using f by (auto simp: m split: if_splits)
      with a(2) wf have b: "map_of T (butlast q) = Some Directory" unfolding wf_tree_iff by blast
      with f have "butlast q \<noteq> ?p" by auto
      with b show "map_of T' (butlast q) = Some Directory" by (simp add: m)
    qed
  qed
qed

lemma deleteNode_wf:
  assumes wf: "wf_tree T" and d: "deleteNode T s = (r, T')"
  shows "wf_tree T'"
proof -
  let ?p = "segments (normalizePath s)"
  show ?thesis
  proof (cases r)
    case (Inl e)
    with d wf show ?thesis using deleteNode_failed by blast
  next
    case (Inr u)
    with d have pne: "?p \<noteq> []" and T': "T' = filter (\<lambda>(q, m). \<not> prefix ?p q) T"
      by (auto simp: deleteNode_def Let_def split: option.splits if_splits)
    have m: "map_of T' q = (if \<not> prefix ?p q then map_of T q else None)" for q
      unfolding T' by (rule map_of_filter_key)
    show ?thesis
      unfolding wf_tree_iff
    proof (intro conjI allI impI)
      show "distinct (map fst T')" using wf by (simp add: T' distinct_map_filter wf_tree_iff)
    next
      show "map_of T' [] = Some Directory" using wf pne by (simp add: m wf_tree_iff)
    next
      fix q n assume "map_of T' q = Some n"
      then show "list_all valid_segment q" using wf wf_valid by (auto simp: m split: if_splits)
    next
      fix q n assume a: "map_of T' q = Some n" "q \<noteq> []"
      then have q: "\<not> prefix ?p q" "map_of T q = Some n" by (auto simp: m split: if_splits)
      with a(2) wf have b: "map_of T (butlast q) = Some Directory" unfolding wf_tree_iff by blast
      have "prefix (butlast q) q" by (rule prefixeq_butlast)
      with q(1) have "\<not> prefix ?p (butlast q)" using prefix_order.trans by blast
      with b show "map_of T' (butlast q) = Some Directory" by (simp add: m)
    qed
  qed
qed

lemma reachable_wf: "reachable T \<Longrightarrow> wf_tree T"
  by (induction rule: reachable.induct)
     (auto intro: wf_emptyTree createFile_wf createDirectory_wf updateFile_wf deleteNode_wf
        deserialize_wf)

subsection \<open>Replaying a snapshot\<close>

lemma createFile_step:
  assumes wf: "wf_tree T" and p: "map_of T p = Some (File c t)" and U: "files_within now T U"
  shows "\<exists>U'. createFile now U (render p) c = (Inr (), U') \<and> files_within now T U'
           \<and> map_of U' p = Some (File c now)
           \<and> (\<forall>q n. map_of U q = Some n \<longrightarrow> map_of U' q = Some n)"
proof -
  have seg: "segments (normalizePath (render p)) = p"
    using wf_valid [OF wf p] by (simp add: segments_render)
  have anc: "map_of U r = Some Directory" if "strict_prefix r p" for r
    using that wf_ancestors [OF wf p] U by (simp add: files_within_def)
  have "\<forall>r. strict_prefix [] r \<and> prefix r ([] @ butlast p) \<longrightarrow> map_of U r = Some Directory"
  proof (intro allI impI)
    fix r assume "strict_prefix [] r \<and> prefix r ([] @ butlast p)"
    then have "strict_prefix r p"
      by (cases p rule: rev_cases) (auto simp: strict_prefix_def prefix_def)
    then show "map_of U r = Some Directory" by (rule anc)
  qed
  then have m: "mkdirp U [] (butlast p) = Inr U" by (rule mkdirp_same)
  have nd: "map_of U p \<noteq> Some Directory"
  proof
    assume "map_of U p = Some Directory"
    with U obtain n' where "map_of T p = Some n'" "Directory = retime now n'"
      unfolding files_within_def by blast
    with p show False by (simp add: retime_def)
  qed
  let ?U' = "AList.update p (File c now) U"
  have cf: "createFile now U (render p) c = (Inr (), ?U')"
    using m nd seg by (auto simp: createFile_def split: option.splits node.splits)
  have mp: "map_of ?U' = (map_of U)(p \<mapsto> File c now)" by (rule update_conv')
  have fw: "files_within now T ?U'"
    using U p unfolding files_within_def
    by (auto simp: mp distinct_update retime_def)
  have keep: "\<forall>q n. map_of U q = Some n \<longrightarrow> map_of ?U' q = Some n"
  proof (intro allI impI)
    fix q n assume q: "map_of U q = Some n"
    show "map_of ?U' q = Some n"
    proof (cases "q = p")
      case True
      with q U obtain n' where "map_of T p = Some n'" "n = retime now n'"
        unfolding files_within_def by blast
      with p True show ?thesis by (simp add: mp retime_def)
    next
      case False
      with q show ?thesis by (simp add: mp)
    qed
  qed
  show ?thesis using cf fw keep by (auto simp: mp)
qed

lemma create_files_fold:
  assumes wf: "wf_tree T"
  shows "files_within now T U \<Longrightarrow>
         \<forall>(k, c)\<in>set fs. \<exists>p t. k = render p \<and> map_of T p = Some (File c t) \<Longrightarrow>
           \<exists>U'. create_files now U fs = Inr U' \<and> files_within now T U'
             \<and> (\<forall>p c t. (render p, c) \<in> set fs \<and> map_of T p = Some (File c t)
                   \<longrightarrow> map_of U' p = Some (File c now))
             \<and> (\<forall>q n. map_of U q = Some n \<longrightarrow> map_of U' q = Some n)"
proof (induction fs arbitrary: U)
  case Nil
  then show ?case by simp
next
  case (Cons f fs)
  obtain k c where f: "f = (k, c)" by (cases f)
  with Cons.prems(2) obtain p t where p: "k = render p" "map_of T p = Some (File c t)" by auto
  from createFile_step [OF wf p(2) Cons.prems(1)] obtain U1 where
    s: "createFile now U (render p) c = (Inr (), U1)" and w: "files_within now T U1"
    and h: "map_of U1 p = Some (File c now)"
    and k: "\<forall>q n. map_of U q = Some n \<longrightarrow> map_of U1 q = Some n" by blast
  from Cons.IH [OF w] Cons.prems(2) obtain U' where
    g: "create_files now U1 fs = Inr U'" and w': "files_within now T U'"
    and a: "\<forall>p c t. (render p, c) \<in> set fs \<and> map_of T p = Some (File c t)
                   \<longrightarrow> map_of U' p = Some (File c now)"
    and k': "\<forall>q n. map_of U1 q = Some n \<longrightarrow> map_of U' q = Some n" by auto
  have inj: "p' = p" if "render p' = render p" "map_of T p' = Some n" for p' n
    using that wf_valid [OF wf] p(2) by (metis segments_render)
  have "\<forall>p' c' t'. (render p', c') \<in> set (f # fs) \<and> map_of T p' = Some (File c' t')
          \<longrightarrow> map_of U' p' = Some (File c' now)"
  proof (intro allI impI)
    fix p' c' t'
    assume x: "(render p', c') \<in> set (f # fs) \<and> map_of T p' = Some (File c' t')"
    show "map_of U' p' = Some (File c' now)"
    proof (cases "(render p', c') = f")
      case True
      with f p(1) have "render p' = render p" "c' = c" by simp_all
      moreover from this x have "p' = p" using inj by blast
      ultimately show ?thesis using h k' by simp
    next
      case False
      with x have "(render p', c') \<in> set fs" by simp
      with x a show ?thesis by blast
    qed
  qed
  moreover have "\<forall>q n. map_of U q = Some n \<longrightarrow> map_of U' q = Some n" using k k' by blast
  ultimately show ?case using s g w' p(1) f by auto
qed

lemma serialize_lookup:
  assumes "\<forall>(p, n)\<in>set U. list_all valid_segment p"
  shows "map_of (serialize U) s =
           (if render (segments s) = s then map_option entry_of (map_of U (segments s)) else None)"
  using assms
proof (induction U)
  case Nil
  then show ?case by (simp add: serialize_def)
next
  case (Cons a U)
  obtain p n where a: "a = (p, n)" by (cases a)
  with Cons.prems have v: "list_all valid_segment p" by simp
  have eq: "s = render p \<longleftrightarrow> (render (segments s) = s \<and> segments s = p)"
    using segments_render [OF v] by auto
  from Cons have "map_of (serialize U) s =
           (if render (segments s) = s then map_option entry_of (map_of U (segments s)) else None)"
    by simp
  then show ?case using a eq by (auto simp: serialize_def)
qed

lemma entry_of_retime [simp]: "entry_of (retime now n) = entry_of n"
  by (cases n) (simp_all add: entry_of_def retime_def)

lemma well_formed_serialize: "list_all (\<lambda>(k, e). well_formed_entry e) (serialize T)"
  by (induction T) (auto simp: serialize_def well_formed_entry_def entry_of_def split: node.splits)

lemma directories_of_serialize:
  "d \<in> set (directories_of (serialize T)) \<longleftrightarrow> (\<exists>p. d = render p \<and> (p, Directory) \<in> set T)"
  by (induction T)
     (auto simp: directories_of_def serialize_def entry_of_def split: node.splits)

lemma files_of_serialize:
  "(k, c) \<in> set (files_of (serialize T)) \<longleftrightarrow> (\<exists>p t. k = render p \<and> (p, File c t) \<in> set T)"
  by (induction T)
     (auto simp: files_of_def serialize_def entry_of_def split: node.splits)

lemma dirs_within_empty: "wf_tree T \<Longrightarrow> dirs_within T emptyTree"
  by (auto simp: dirs_within_def emptyTree_def wf_tree_iff split: if_splits)

lemma deserialize_map:
  assumes wf: "wf_tree T"
  shows "\<exists>T'. deserialize now T0 (serialize T) = (Inr (), T') \<and> distinct (map fst T')
           \<and> (\<forall>p. map_of T' p = map_option (retime now) (map_of T p))"
proof -
  have dist: "distinct (map fst T)" using wf by (simp add: wf_tree_iff)
  let ?ds = "sort_key (\<lambda>k. length (segments (normalizePath k))) (directories_of (serialize T))"
  let ?fs = "files_of (serialize T)"
  have ds: "d \<in> set ?ds \<longleftrightarrow> (\<exists>p. d = render p \<and> map_of T p = Some Directory)" for d
    using dist by (simp add: directories_of_serialize)
  have fs: "(k, c) \<in> set ?fs \<longleftrightarrow> (\<exists>p t. k = render p \<and> map_of T p = Some (File c t))" for k c
    using dist by (simp add: files_of_serialize)
  have "\<forall>d\<in>set ?ds. \<exists>p. d = render p \<and> map_of T p = Some Directory"
    using ds by blast
  from create_directories_fold [OF wf dirs_within_empty [OF wf] this]
  obtain U1 where c1: "create_directories emptyTree ?ds = Inr U1" and w1: "dirs_within T U1"
    and a1: "\<forall>p. render p \<in> set ?ds \<and> map_of T p = Some Directory \<longrightarrow> map_of U1 p = Some Directory"
    by blast
  have d1: "\<forall>p. map_of T p = Some Directory \<longrightarrow> map_of U1 p = Some Directory"
    using a1 ds by blast
  have fw1: "files_within now T U1"
    unfolding files_within_def
  proof (intro conjI allI impI)
    show "distinct (map fst U1)" using w1 by (simp add: dirs_within_def)
  next
    fix p assume "map_of T p = Some Directory"
    then show "map_of U1 p = Some Directory" using d1 by blast
  next
    fix q n assume "map_of U1 q = Some n"
    with w1 have "n = Directory" "map_of T q = Some Directory" by (auto simp: dirs_within_def)
    then show "\<exists>n'. map_of T q = Some n' \<and> n = retime now n'" by (simp add: retime_def)
  qed
  have "\<forall>(k, c)\<in>set ?fs. \<exists>p t. k = render p \<and> map_of T p = Some (File c t)"
    using fs by blast
  from create_files_fold [OF wf fw1 this]
  obtain U2 where c2: "create_files now U1 ?fs = Inr U2" and w2: "files_within now T U2"
    and a2: "\<forall>p c t. (render p, c) \<in> set ?fs \<and> map_of T p = Some (File c t)
                   \<longrightarrow> map_of U2 p = Some (File c now)"
    by blast
  have m: "map_of U2 p = map_option (retime now) (map_of T p)" for p
  proof (cases "map_of T p")
    case None
    have "map_of U2 p = None"
    proof (cases "map_of U2 p")
      case (Some n)
      with w2 obtain n' where "map_of T p = Some n'" unfolding files_within_def by blast
      with None show ?thesis by simp
    qed simp
    with None show ?thesis by simp
  next
    case (Some n)
    show ?thesis
    proof (cases n)
      case (File c t)
      with Some have "(render p, c) \<in> set ?fs" using fs by blast
      with a2 Some File show ?thesis by (simp add: retime_def)
    next
      case Directory
      with Some w2 show ?thesis by (simp add: files_within_def retime_def)
    qed
  qed
  have "deserialize now T0 (serialize T) = (Inr (), U2)"
    using c1 c2 well_formed_serialize [of T] by (simp add: deserialize_def)
  moreover have "distinct (map fst U2)" using w2 by (simp add: files_within_def)
  ultimately show ?thesis using m by blast
qed

lemma retime_Directory [simp]: "retime now n = Directory \<longleftrightarrow> n = Directory"
  by (cases n) (simp_all add: retime_def)


text \<open>
  C1, the round-trip law. For every tree \<open>T\<close> that satisfies the invariants of the data
  model (every tree the operations build does, by \<open>reachable_wf\<close>), at any clock reading and
  whatever tree was held before, \<^verbatim>\<open>deserialize(serialize(T))\<close> succeeds and leaves a tree
  that satisfies the invariants and is observably identical to \<open>T\<close>: its snapshot is the
  same mapping as the snapshot of \<open>T\<close> (the same node type at every path, the same content
  for every file), the set of absolute paths is the same, and \<^verbatim>\<open>readFile\<close> and
  \<^verbatim>\<open>exists\<close> answer the same on every path string.
\<close>

theorem deserialize_serialize:
  assumes wf: "wf_tree T"
  shows "\<exists>T'. deserialize now T0 (serialize T) = (Inr (), T') \<and> wf_tree T'
           \<and> map_of (serialize T') = map_of (serialize T)
           \<and> fst ` set (serialize T') = fst ` set (serialize T)
           \<and> (\<forall>s. readFile T' s = readFile T s \<and> exists T' s = exists T s)"
proof -
  from deserialize_map [OF wf] obtain T' where
    d: "deserialize now T0 (serialize T) = (Inr (), T')" and dist: "distinct (map fst T')"
    and m: "\<forall>p. map_of T' p = map_option (retime now) (map_of T p)" by blast
  have w: "wf_tree T'"
    unfolding wf_tree_iff
  proof (intro conjI allI impI)
    show "distinct (map fst T')" by (rule dist)
  next
    show "map_of T' [] = Some Directory" using wf m by (simp add: wf_tree_iff)
  next
    fix p n assume "map_of T' p = Some n"
    with m obtain n' where "map_of T p = Some n'" by auto
    then show "list_all valid_segment p" using wf wf_valid by blast
  next
    fix p n assume "map_of T' p = Some n" "p \<noteq> []"
    with m obtain n' where "map_of T p = Some n'" by auto
    with \<open>p \<noteq> []\<close> wf have "map_of T (butlast p) = Some Directory" unfolding wf_tree_iff by blast
    with m show "map_of T' (butlast p) = Some Directory" by simp
  qed
  have vT: "\<forall>(p, n)\<in>set T. list_all valid_segment p" using wf by (auto simp: wf_tree_def list_all_iff)
  have vT': "\<forall>(p, n)\<in>set T'. list_all valid_segment p" using w by (auto simp: wf_tree_def list_all_iff)
  have s: "map_of (serialize T') = map_of (serialize T)"
  proof
    fix s
    show "map_of (serialize T') s = map_of (serialize T) s"
      unfolding serialize_lookup [OF vT] serialize_lookup [OF vT']
      by (cases "map_of T (segments s)") (simp_all add: m)
  qed
  have "dom (map_of (serialize T')) = dom (map_of (serialize T))" using s by simp
  then have k: "fst ` set (serialize T') = fst ` set (serialize T)"
    by (simp only: dom_map_of_conv_image_fst)
  have r: "readFile T' s = readFile T s \<and> exists T' s = exists T s" for s
    by (cases "map_of T (segments (normalizePath s))")
       (auto simp: readFile_def exists_def m retime_def split: node.splits)
  show ?thesis using d w s k r by blast
qed

text \<open>The law at a tree with a nested file and an empty directory.\<close>

theorem deserialize_serialize_witness:
  "wf_tree [([], Directory), ([''a''], Directory), ([''a'', ''b.js''], File ''x'' 3), ([''empty''], Directory)]
   \<and> (\<exists>T'. deserialize 9 emptyTree
              (serialize [([], Directory), ([''a''], Directory), ([''a'', ''b.js''], File ''x'' 3), ([''empty''], Directory)])
              = (Inr (), T')
         \<and> readFile T' ''/a/b.js'' = Inr ''x'' \<and> exists T' ''/empty'')"
proof -
  let ?T = "[([], Directory), ([''a''], Directory), ([''a'', ''b.js''], File ''x'' 3), ([''empty''], Directory)]"
  have w: "wf_tree ?T" by (simp add: wf_tree_def valid_segment_def)
  have "segments (normalizePath ''/a/b.js'') = [''a'', ''b.js'']"
    by (simp only: segments_normalizePath) (simp add: segments_def)
  then have r: "readFile ?T ''/a/b.js'' = Inr ''x''"
    by (simp add: readFile_def)
  have "segments (normalizePath ''/empty'') = [''empty'']"
    by (simp only: segments_normalizePath) (simp add: segments_def)
  then have e: "exists ?T ''/empty''"
    by (simp add: exists_def)
  from deserialize_serialize [OF w, of 9 emptyTree] r e w show ?thesis by auto
qed

subsection \<open>Renaming\<close>





subsection \<open>Path normalization\<close>












subsection \<open>Failed operations\<close>



end
